theory Spec2Isabelle
  imports Complex_Main "HOL-Library.Word" "HOL-Library.Multiset" "HOL-Library.Log_Nat"
    "HOL-Library.Product_Lexorder"
begin

section \<open>Faults\<close>

text \<open>
  A Go panic or a fatal runtime error ends the whole program.  The model returns it as the
  left summand of the result: \<open>IndexOutOfRange\<close> for an array or slice index outside its
  bounds, \<open>NegativeChanSize\<close> for \<^verbatim>\<open>make(chan struct{}, n)\<close> with \<open>n < 0\<close>,
  \<open>NegativeWaitGroup\<close> for a \<open>WaitGroup\<close> counter that would go below zero, \<open>Deadlock\<close>
  for the runtime's "all goroutines are asleep".
\<close>

datatype panic = IndexOutOfRange | NegativeChanSize | NegativeWaitGroup | Deadlock

section \<open>Profiles\<close>

text \<open>
  \<^verbatim>\<open>type ProteinProfile struct { Profile [676]uint32; Sum uint64 }\<close>

  The array is a list of 32-bit words; the Go type fixes its length to 676, which the model
  states as \<open>length (Profile p) = 676\<close> where it matters.
\<close>

record ProteinProfile =
  Profile :: "32 word list"
  Sum :: "64 word"

text \<open>
  \<^verbatim>\<open>index := (int(sequence[i]-'A') * 26) + int(sequence[i+1]-'A')\<close>

  A Go string is a sequence of bytes, so \<open>sequence[i] - 'A'\<close> is a subtraction of \<open>uint8\<close>
  values and wraps around below \<open>'A'\<close>; \<open>int\<close> then widens the byte without sign.
\<close>

definition bigramIndex :: "char \<Rightarrow> char \<Rightarrow> int" where
  "bigramIndex c1 c2 =
     uint ((of_char c1 :: 8 word) - of_char CHR ''A'') * 26
       + uint ((of_char c2 :: 8 word) - of_char CHR ''A'')"

text \<open>
  The loop \<^verbatim>\<open>for i := 0; i+1 < len(sequence); i++\<close> of \<open>buildProfile\<close>, with the bounds
  check that Go makes on \<open>profile[index]\<close>.  \<open>profile[index]++\<close> wraps at \<open>2 ^ 32\<close>, \<open>sum++\<close>
  at \<open>2 ^ 64\<close>.
\<close>

function buildProfile_loop ::
  "string \<Rightarrow> nat \<Rightarrow> 32 word list \<Rightarrow> 64 word \<Rightarrow> panic + ProteinProfile" where
  "buildProfile_loop sequence i profile sum0 =
     (if i + 1 < length sequence then
        (let index = bigramIndex (sequence ! i) (sequence ! (i + 1)) in
         if 0 \<le> index \<and> index < int (length profile) then
           buildProfile_loop sequence (i + 1)
             (profile[nat index := profile ! nat index + 1]) (sum0 + 1)
         else Inl IndexOutOfRange)
      else Inr \<lparr>Profile = profile, Sum = sum0\<rparr>)"
  by pat_completeness auto
termination
  by (relation "measure (\<lambda>(sequence, i, profile, sum0). length sequence - i)") auto

declare buildProfile_loop.simps [simp del]

definition buildProfile :: "string \<Rightarrow> panic + ProteinProfile" where
  "buildProfile sequence = buildProfile_loop sequence 0 (replicate 676 0) 0"

text \<open>The bytes \<open>'A'\<close> .. \<open>'Z'\<close>.\<close>

definition isUpper :: "char \<Rightarrow> bool" where
  "isUpper c \<longleftrightarrow> (65::nat) \<le> of_char c \<and> of_char c \<le> (90::nat)"

text \<open>
  The invariant of a profile: the array has its 676 entries and \<open>Sum\<close> is the sum of the
  counts, both read as numbers.
\<close>

definition profile_inv :: "ProteinProfile \<Rightarrow> bool" where
  "profile_inv p \<longleftrightarrow>
     length (Profile p) = 676 \<and> unat (Sum p) = sum_list (map unat (Profile p))"

section \<open>Floating point\<close>

text \<open>
  A \<open>float64\<close> is a NaN, an infinity or a finite number; finite values are rationals.
  The model has one zero.  Go's \<open>-0.0\<close> arises in this program only as the negation of
  a similarity of 0, compares equal to \<open>0.0\<close>, and is negated back before it is returned.

  \<open>round53\<close> is the rounding of IEEE 754 binary64: to the nearest number with a
  significand of 53 bits, ties to the even significand.  \<open>ilog2 x\<close> is the exponent
  \<open>\<lfloor>log\<^sub>2 x\<rfloor>\<close> of a positive \<open>x\<close>.  The exponent range of binary64 is not modelled: the
  numbers rounded here are quotients of two integers below \<open>2 ^ 64\<close>, far from overflow
  and from the subnormal range.
\<close>

datatype float64 = NaN | NInf | Fin rat | PInf

definition rne :: "rat \<Rightarrow> int" where
  "rne x =
     (let f = \<lfloor>x\<rfloor>; r = x - of_int f in
      if r < 1 / 2 then f else if 1 / 2 < r then f + 1 else if even f then f else f + 1)"

definition ilog2 :: "rat \<Rightarrow> int" where
  "ilog2 x =
     (let e = bitlen (fst (quotient_of x)) - bitlen (snd (quotient_of x)) in
      if 2 powi e \<le> x then e else e - 1)"

definition round53 :: "rat \<Rightarrow> rat" where
  "round53 x =
     (if x = 0 then 0
      else let u = 2 powi (ilog2 \<bar>x\<bar> - 52) in of_int (rne (x / u)) * u)"

text \<open>The conversion \<^verbatim>\<open>float64(n)\<close> of a \<open>uint64\<close>.\<close>

definition float64_of_uint64 :: "64 word \<Rightarrow> float64" where
  "float64_of_uint64 n = Fin (round53 (of_nat (unat n)))"

text \<open>
  Division.  A finite nonzero number divided by zero is an infinity with the sign of the
  dividend (the zero is \<open>+0\<close>), and \<open>0 / 0\<close> is NaN: Go does not panic on a division of
  floating-point variables.
\<close>

fun fdiv :: "float64 \<Rightarrow> float64 \<Rightarrow> float64" where
  "fdiv (Fin x) (Fin y) =
     (if y = 0 then (if x = 0 then NaN else if 0 < x then PInf else NInf)
      else Fin (round53 (x / y)))"
| "fdiv NaN _ = NaN"
| "fdiv _ NaN = NaN"
| "fdiv (Fin x) _ = Fin 0"
| "fdiv PInf (Fin y) = (if 0 \<le> y then PInf else NInf)"
| "fdiv NInf (Fin y) = (if 0 \<le> y then NInf else PInf)"
| "fdiv _ _ = NaN"

fun fneg :: "float64 \<Rightarrow> float64" where
  "fneg NaN = NaN"
| "fneg NInf = PInf"
| "fneg (Fin x) = Fin (- x)"
| "fneg PInf = NInf"

text \<open>Go's \<open>x < y\<close> and \<open>x > y\<close> on \<open>float64\<close>: false as soon as one side is NaN.\<close>

fun flt :: "float64 \<Rightarrow> float64 \<Rightarrow> bool" where
  "flt NaN _ = False"
| "flt _ NaN = False"
| "flt PInf _ = False"
| "flt _ NInf = False"
| "flt NInf _ = True"
| "flt _ PInf = True"
| "flt (Fin x) (Fin y) = (x < y)"

definition fgt :: "float64 \<Rightarrow> float64 \<Rightarrow> bool" where
  "fgt x y = flt y x"

text \<open>\<open>x \<le> y\<close> on \<open>float64\<close>, used to state results.\<close>

definition fle :: "float64 \<Rightarrow> float64 \<Rightarrow> bool" where
  "fle x y \<longleftrightarrow> x \<noteq> NaN \<and> y \<noteq> NaN \<and> \<not> flt y x"

text \<open>Go's \<open>x == y\<close> on \<open>float64\<close>: NaN is equal to nothing.\<close>

definition feq :: "float64 \<Rightarrow> float64 \<Rightarrow> bool" where
  "feq x y \<longleftrightarrow> x \<noteq> NaN \<and> y \<noteq> NaN \<and> x = y"

section \<open>Similarity\<close>

text \<open>
  \<open>calculateSimilarity\<close>: the loop \<^verbatim>\<open>for i := 0; i < 676; i++\<close> adds the smaller of the
  two counts to \<open>sumMin\<close>, a \<open>uint64\<close>; \<open>sumMax\<close> is computed in \<open>uint64\<close> as well.
\<close>

definition sumMin_step :: "ProteinProfile \<Rightarrow> ProteinProfile \<Rightarrow> nat \<Rightarrow> 64 word \<Rightarrow> 64 word" where
  "sumMin_step X Y i sumMin =
     (if Profile X ! i < Profile Y ! i then sumMin + ucast (Profile X ! i)
      else sumMin + ucast (Profile Y ! i))"

definition calculateSimilarity :: "ProteinProfile \<Rightarrow> ProteinProfile \<Rightarrow> float64" where
  "calculateSimilarity X Y =
     (let sumMin = fold (sumMin_step X Y) [0..<676] 0;
          sumMax = Sum X + Sum Y - sumMin
      in fdiv (float64_of_uint64 sumMin) (float64_of_uint64 sumMax))"

text \<open>The value of \<open>sumMin\<close> after \<open>n\<close> rounds of the loop, as a number.\<close>

definition minSum :: "ProteinProfile \<Rightarrow> ProteinProfile \<Rightarrow> nat \<Rightarrow> nat" where
  "minSum X Y n = (\<Sum>i = 0..<n. min (unat (Profile X ! i)) (unat (Profile Y ! i)))"

section \<open>The batch builder\<close>

text \<open>
  \<open>buildProfilesParallel\<close> starts one goroutine per sequence.  The main goroutine, for
  each \<open>i\<close>, does \<^verbatim>\<open>wg.Add(1)\<close>, sends a token into the buffered channel \<open>semaphore\<close>
  (it blocks while the channel holds \<open>maxGoroutines\<close> tokens) and starts goroutine \<open>i\<close>;
  after the loop it waits in \<^verbatim>\<open>wg.Wait()\<close>.  Goroutine \<open>i\<close> computes
  \<open>buildProfile(sequence)\<close>, stores it in \<open>profiles[index]\<close>, receives a token from
  \<open>semaphore\<close> and, deferred, calls \<^verbatim>\<open>wg.Done()\<close>.

  The model is an interleaving semantics.  A state holds the slice \<open>profiles\<close>, the
  goroutines started so far with their program points (their number is the loop index of
  the main goroutine), the number of tokens in \<open>semaphore\<close> and the counter of \<open>wg\<close>.
  An event is one step of one goroutine; a schedule is a list of events.
\<close>

datatype goroutine = Started | Stored | Released | Finished

datatype event = Spawn | Store nat | Release nat | Done nat

record par_state =
  profiles :: "ProteinProfile list"
  goroutines :: "goroutine list"
  semaphore :: nat
  wg :: nat

text \<open>\<^verbatim>\<open>make([]ProteinProfile, len(sequences))\<close> fills the slice with zero values.\<close>

definition par_init :: "string list \<Rightarrow> par_state" where
  "par_init sequences =
     \<lparr>profiles = replicate (length sequences) \<lparr>Profile = replicate 676 0, Sum = 0\<rparr>,
      goroutines = [], semaphore = 0, wg = 0\<rparr>"

text \<open>
  One step.  \<open>None\<close>: the event cannot happen in this state (the goroutine is not at that
  point, or it is blocked).  \<open>Some (Inl e)\<close>: the step panics, which ends the program.
\<close>

fun par_step :: "string list \<Rightarrow> nat \<Rightarrow> par_state \<Rightarrow> event \<Rightarrow> (panic + par_state) option" where
  "par_step sequences maxGoroutines s Spawn =
     (if length (goroutines s) < length sequences \<and> semaphore s < maxGoroutines then
        Some (Inr (s\<lparr>goroutines := goroutines s @ [Started],
                      semaphore := semaphore s + 1, wg := wg s + 1\<rparr>))
      else None)"
| "par_step sequences maxGoroutines s (Store i) =
     (if i < length (goroutines s) \<and> goroutines s ! i = Started then
        (case buildProfile (sequences ! i) of
           Inl e \<Rightarrow> Some (Inl e)
         | Inr p \<Rightarrow>
             if i < length (profiles s) then
               Some (Inr (s\<lparr>profiles := (profiles s)[i := p],
                             goroutines := (goroutines s)[i := Stored]\<rparr>))
             else Some (Inl IndexOutOfRange))
      else None)"
| "par_step sequences maxGoroutines s (Release i) =
     (if i < length (goroutines s) \<and> goroutines s ! i = Stored \<and> 0 < semaphore s then
        Some (Inr (s\<lparr>goroutines := (goroutines s)[i := Released],
                      semaphore := semaphore s - 1\<rparr>))
      else None)"
| "par_step sequences maxGoroutines s (Done i) =
     (if i < length (goroutines s) \<and> goroutines s ! i = Released then
        (if 0 < wg s then
           Some (Inr (s\<lparr>goroutines := (goroutines s)[i := Finished], wg := wg s - 1\<rparr>))
         else Some (Inl NegativeWaitGroup))
      else None)"

fun exec :: "string list \<Rightarrow> nat \<Rightarrow> event list \<Rightarrow> par_state \<Rightarrow> (panic + par_state) option" where
  "exec sequences maxGoroutines [] s = Some (Inr s)"
| "exec sequences maxGoroutines (ev # evs) s =
     (case par_step sequences maxGoroutines s ev of
        None \<Rightarrow> None
      | Some (Inl e) \<Rightarrow> Some (Inl e)
      | Some (Inr s') \<Rightarrow> exec sequences maxGoroutines evs s')"

text \<open>
  The main goroutine returns \<open>profiles\<close> once its loop is over and \<^verbatim>\<open>wg.Wait()\<close> finds
  the counter at zero.
\<close>

definition can_return :: "string list \<Rightarrow> par_state \<Rightarrow> bool" where
  "can_return sequences s \<longleftrightarrow> length (goroutines s) = length sequences \<and> wg s = 0"

text \<open>The schedule that lets every goroutine finish before the next one starts.\<close>

definition in_order :: "nat \<Rightarrow> event list" where
  "in_order n = concat (map (\<lambda>i. [Spawn, Store i, Release i, Done i]) [0..<n])"

text \<open>
  \<open>buildProfilesParallel\<close> as a function: its result under the schedule \<open>in_order\<close>.
  That every other schedule gives the same result is a theorem below.  \<open>make\<close> panics on
  a negative capacity; with capacity 0 and a sequence to process the first send blocks
  for ever and the runtime reports a deadlock.  \<open>startIndex\<close> is not used by the body.
\<close>

definition buildProfilesParallel ::
  "string list \<Rightarrow> int \<Rightarrow> int \<Rightarrow> panic + ProteinProfile list" where
  "buildProfilesParallel sequences maxGoroutines startIndex =
     (if maxGoroutines < 0 then Inl NegativeChanSize
      else case exec sequences (nat maxGoroutines) (in_order (length sequences))
                  (par_init sequences) of
             None \<Rightarrow> Inl Deadlock
           | Some (Inl e) \<Rightarrow> Inl e
           | Some (Inr s) \<Rightarrow> if can_return sequences s then Inr (profiles s) else Inl Deadlock)"

text \<open>
  The specification's reference: the profiler applied to each input in turn, the first
  panic ending the run.
\<close>

fun buildProfilesSeq :: "string list \<Rightarrow> panic + ProteinProfile list" where
  "buildProfilesSeq [] = Inr []"
| "buildProfilesSeq (sequence # sequences) =
     (case buildProfile sequence of
        Inl e \<Rightarrow> Inl e
      | Inr p \<Rightarrow>
          (case buildProfilesSeq sequences of Inl e \<Rightarrow> Inl e | Inr ps \<Rightarrow> Inr (p # ps)))"

text \<open>
  What ties the counters to the program points: a goroutine holds a token of \<open>semaphore\<close>
  from its start until it has received one, and counts in \<open>wg\<close> until its \<open>Done\<close>.
\<close>

fun tokens :: "goroutine \<Rightarrow> nat" where
  "tokens Started = 1"
| "tokens Stored = 1"
| "tokens Released = 0"
| "tokens Finished = 0"

fun pending :: "goroutine \<Rightarrow> nat" where
  "pending Finished = 0"
| "pending _ = 1"

definition par_inv :: "string list \<Rightarrow> nat \<Rightarrow> par_state \<Rightarrow> bool" where
  "par_inv sequences maxGoroutines s \<longleftrightarrow>
     length (goroutines s) \<le> length sequences
     \<and> length (profiles s) = length sequences
     \<and> semaphore s = sum_list (map tokens (goroutines s))
     \<and> wg s = sum_list (map pending (goroutines s))
     \<and> semaphore s \<le> maxGoroutines
     \<and> (\<forall>i<length (goroutines s).
            goroutines s ! i \<noteq> Started \<longrightarrow> buildProfile (sequences ! i) = Inr (profiles s ! i))"

text \<open>The number of steps a goroutine has left, and the number of steps a state has left.\<close>

fun steps_left :: "goroutine \<Rightarrow> nat" where
  "steps_left Started = 3"
| "steps_left Stored = 2"
| "steps_left Released = 1"
| "steps_left Finished = 0"

definition par_measure :: "string list \<Rightarrow> par_state \<Rightarrow> nat" where
  "par_measure sequences s =
     4 * (length sequences - length (goroutines s)) + sum_list (map steps_left (goroutines s))"

text \<open>
  The state in which \<open>k\<close> of \<open>n\<close> goroutines have run to their end and stored the
  profiles \<open>ps\<close>.
\<close>

definition finished_state :: "nat \<Rightarrow> nat \<Rightarrow> ProteinProfile list \<Rightarrow> par_state" where
  "finished_state n k ps =
     \<lparr>profiles = ps @ replicate (n - k) \<lparr>Profile = replicate 676 0, Sum = 0\<rparr>,
      goroutines = replicate k Finished, semaphore = 0, wg = 0\<rparr>"

section \<open>The ingestion driver\<close>

text \<open>
  \<open>processFileInChunks\<close> reads a file line by line.  The model takes what \<open>os.Open\<close> and
  the \<open>bufio.Scanner\<close> deliver: either no file, or the lines that \<open>scanner.Scan\<close> yields
  (without their line ends) and the error with which the scanner stopped, \<open>None\<close> at the
  end of the input.  The function returns its two slices and that error; a panic of the
  batch builder ends the program.
\<close>

datatype go_error = OpenFailed | ScanFailed

datatype input_file = Missing | File "string list" "go_error option"

text \<open>\<^verbatim>\<open>strings.HasPrefix(s, prefix)\<close>\<close>

definition HasPrefix :: "string \<Rightarrow> string \<Rightarrow> bool" where
  "HasPrefix s p \<longleftrightarrow> take (length p) s = p"

record chunk_state =
  allNames :: "string list"
  allProfiles :: "ProteinProfile list"
  currentChunkNames :: "string list"
  currentChunkSequences :: "string list"
  currentName :: string
  currentSequence :: string
  lineCount :: int
  totalProcessed :: int

definition chunk_init :: chunk_state where
  "chunk_init =
     \<lparr>allNames = [], allProfiles = [], currentChunkNames = [], currentChunkSequences = [],
      currentName = [], currentSequence = [], lineCount = 0, totalProcessed = 0\<rparr>"

text \<open>The body of \<^verbatim>\<open>for scanner.Scan()\<close>: the line is stored, then a full chunk is built.\<close>

definition scan_line :: "int \<Rightarrow> int \<Rightarrow> chunk_state \<Rightarrow> string \<Rightarrow> panic + chunk_state" where
  "scan_line chunkSize maxGoroutines st0 line =
     (let st = st0\<lparr>lineCount := lineCount st0 + 1\<rparr>;
          st = (if HasPrefix line ''>'' then
                  (if currentName st \<noteq> [] then
                     st\<lparr>currentChunkNames := currentChunkNames st @ [currentName st],
                        currentChunkSequences := currentChunkSequences st @ [currentSequence st],
                        currentSequence := []\<rparr>
                   else st)\<lparr>currentName := line\<rparr>
                else st\<lparr>currentSequence := currentSequence st @ line\<rparr>)
      in if chunkSize \<le> int (length (currentChunkSequences st)) then
           (case buildProfilesParallel (currentChunkSequences st) maxGoroutines
                   (totalProcessed st) of
              Inl e \<Rightarrow> Inl e
            | Inr profiles' \<Rightarrow>
                Inr (st\<lparr>allNames := allNames st @ currentChunkNames st,
                        allProfiles := allProfiles st @ profiles',
                        totalProcessed :=
                          totalProcessed st + int (length (currentChunkSequences st)),
                        currentChunkNames := [],
                        currentChunkSequences := []\<rparr>))
         else Inr st)"

fun scan_loop :: "int \<Rightarrow> int \<Rightarrow> string list \<Rightarrow> chunk_state \<Rightarrow> panic + chunk_state" where
  "scan_loop chunkSize maxGoroutines [] st = Inr st"
| "scan_loop chunkSize maxGoroutines (line # lines) st =
     (case scan_line chunkSize maxGoroutines st line of
        Inl e \<Rightarrow> Inl e
      | Inr st' \<Rightarrow> scan_loop chunkSize maxGoroutines lines st')"

text \<open>After the loop: the record in flight is queued and the last chunk is built.\<close>

definition scan_end ::
  "int \<Rightarrow> go_error option \<Rightarrow> chunk_state
     \<Rightarrow> panic + (string list \<times> ProteinProfile list \<times> go_error option)" where
  "scan_end maxGoroutines err st0 =
     (let st = (if currentName st0 \<noteq> [] then
                  st0\<lparr>currentChunkNames := currentChunkNames st0 @ [currentName st0],
                      currentChunkSequences :=
                        currentChunkSequences st0 @ [currentSequence st0]\<rparr>
                else st0)
      in if 0 < length (currentChunkSequences st) then
           (case buildProfilesParallel (currentChunkSequences st) maxGoroutines
                   (totalProcessed st) of
              Inl e \<Rightarrow> Inl e
            | Inr profiles' \<Rightarrow>
                Inr (allNames st @ currentChunkNames st, allProfiles st @ profiles', err))
         else Inr (allNames st, allProfiles st, err))"

definition processFileInChunks ::
  "input_file \<Rightarrow> int \<Rightarrow> int \<Rightarrow> panic + (string list \<times> ProteinProfile list \<times> go_error option)" where
  "processFileInChunks f chunkSize maxGoroutines =
     (case f of
        Missing \<Rightarrow> Inr ([], [], Some OpenFailed)
      | File lines err \<Rightarrow>
          (case scan_loop chunkSize maxGoroutines lines chunk_init of
             Inl e \<Rightarrow> Inl e
           | Inr st \<Rightarrow> scan_end maxGoroutines err st))"

text \<open>
  The records of a list of lines as the specification describes them: one for each line
  that begins with the marker, named by that line, its sequence the concatenation of the
  lines that follow up to the next marker line or the end.
\<close>

fun records :: "string list \<Rightarrow> (string \<times> string) list" where
  "records [] = []"
| "records (line # lines) =
     (if HasPrefix line ''>'' then
        (line, concat (takeWhile (\<lambda>l. \<not> HasPrefix l ''>'') lines)) # records lines
      else records lines)"

text \<open>
  The records as the loop collects them, from a name and a sequence in flight: the lines
  before the first marker are accumulated too, and stay in \<open>currentSequence\<close> when the first
  marker arrives.
\<close>

fun collected :: "string \<Rightarrow> string \<Rightarrow> string list \<Rightarrow> (string \<times> string) list" where
  "collected name sequence [] = (if name \<noteq> [] then [(name, sequence)] else [])"
| "collected name sequence (line # lines) =
     (if HasPrefix line ''>'' then
        (if name \<noteq> [] then (name, sequence) # collected line [] lines
         else collected line sequence lines)
      else collected name (sequence @ line) lines)"

text \<open>The batch builder as the driver calls it: only on a chunk that is not empty.\<close>

definition build_chunk :: "int \<Rightarrow> string list \<Rightarrow> panic + ProteinProfile list" where
  "build_chunk maxGoroutines sequences =
     (if sequences = [] then Inr [] else buildProfilesParallel sequences maxGoroutines 0)"

text \<open>
  The table that the driver returns from a state \<open>st\<close> once the records \<open>rs\<close> have been
  queued behind those of the current chunk.
\<close>

definition table_of ::
  "int \<Rightarrow> go_error option \<Rightarrow> chunk_state \<Rightarrow> (string \<times> string) list
     \<Rightarrow> panic + (string list \<times> ProteinProfile list \<times> go_error option)" where
  "table_of maxGoroutines err st rs =
     map_sum id (\<lambda>ps. (allNames st @ currentChunkNames st @ map fst rs, allProfiles st @ ps, err))
       (build_chunk maxGoroutines (currentChunkSequences st @ map snd rs))"

text \<open>The first half of the loop body: the line is stored in the state.\<close>

definition stored :: "chunk_state \<Rightarrow> string \<Rightarrow> chunk_state" where
  "stored st0 line =
     (let st = st0\<lparr>lineCount := lineCount st0 + 1\<rparr> in
      if HasPrefix line ''>'' then
        (if currentName st \<noteq> [] then
           st\<lparr>currentChunkNames := currentChunkNames st @ [currentName st],
              currentChunkSequences := currentChunkSequences st @ [currentSequence st],
              currentSequence := []\<rparr>
         else st)\<lparr>currentName := line\<rparr>
      else st\<lparr>currentSequence := currentSequence st @ line\<rparr>)"

section \<open>The priority queue\<close>

text \<open>
  \<^verbatim>\<open>type ProteinSimilarity struct { similarity float64; name string }\<close> and
  \<^verbatim>\<open>type MaxHeap []ProteinSimilarity\<close> with its methods.  \<open>Less\<close> and \<open>Swap\<close> take
  indices in Go; \<open>MaxHeap_Less\<close> compares the two elements themselves, so that
  \<^verbatim>\<open>h.Less(i, j)\<close> is \<open>MaxHeap_Less (h ! i) (h ! j)\<close>.
\<close>

record ProteinSimilarity =
  similarity :: float64
  name :: string

type_synonym MaxHeap = "ProteinSimilarity list"

definition MaxHeap_Less :: "ProteinSimilarity \<Rightarrow> ProteinSimilarity \<Rightarrow> bool" where
  "MaxHeap_Less x y = fgt (similarity x) (similarity y)"

definition Swap :: "'a list \<Rightarrow> nat \<Rightarrow> nat \<Rightarrow> 'a list" where
  "Swap h i j = h[i := h ! j, j := h ! i]"

text \<open>
  The functions of Go's package \<open>container/heap\<close> that the program calls, over a slice
  and the \<open>Less\<close> of its elements.  In \<open>up\<close>, \<^verbatim>\<open>i := (j - 1) / 2\<close> is 0 for \<open>j = 0\<close>
  (Go's division truncates), as the subtraction and division of natural numbers give.
  In \<open>down\<close>, the test \<^verbatim>\<open>j1 < 0\<close> for an overflow of \<open>int\<close> has no counterpart, and the
  result \<^verbatim>\<open>i > i0\<close>, which \<open>Init\<close> and \<open>Pop\<close> ignore, is left out.
\<close>

function up :: "('a \<Rightarrow> 'a \<Rightarrow> bool) \<Rightarrow> 'a list \<Rightarrow> nat \<Rightarrow> 'a list" where
  "up lt h j =
     (let i = (j - 1) div 2 in
      if i = j \<or> \<not> lt (h ! j) (h ! i) then h else up lt (Swap h i j) i)"
  by pat_completeness auto
termination
  by (relation "measure (\<lambda>(lt, h, j). j)") auto

declare up.simps [simp del]

function down :: "('a \<Rightarrow> 'a \<Rightarrow> bool) \<Rightarrow> 'a list \<Rightarrow> nat \<Rightarrow> nat \<Rightarrow> 'a list" where
  "down lt h i n =
     (let j1 = 2 * i + 1 in
      if n \<le> j1 then h
      else
        let j = (if j1 + 1 < n \<and> lt (h ! (j1 + 1)) (h ! j1) then j1 + 1 else j1) in
        if \<not> lt (h ! j) (h ! i) then h else down lt (Swap h i j) j n)"
  by pat_completeness auto
termination
  by (relation "measure (\<lambda>(lt, h, i, n). n - i)") (auto split: if_splits)

declare down.simps [simp del]

text \<open>\<^verbatim>\<open>for i := n/2 - 1; i >= 0; i-- { down(h, i, n) }\<close>\<close>

definition heap_Init :: "('a \<Rightarrow> 'a \<Rightarrow> bool) \<Rightarrow> 'a list \<Rightarrow> 'a list" where
  "heap_Init lt h = fold (\<lambda>i h. down lt h i (length h)) (rev [0..<length h div 2]) h"

text \<open>\<^verbatim>\<open>h.Push(x); up(h, h.Len()-1)\<close>, where \<open>h.Push\<close> appends.\<close>

definition heap_Push :: "('a \<Rightarrow> 'a \<Rightarrow> bool) \<Rightarrow> 'a list \<Rightarrow> 'a \<Rightarrow> 'a list" where
  "heap_Push lt h x = (let h = h @ [x] in up lt h (length h - 1))"

text \<open>
  \<^verbatim>\<open>n := h.Len() - 1; h.Swap(0, n); down(h, 0, n); return h.Pop()\<close>, where \<open>h.Pop\<close>
  takes the last element off.  On an empty heap \<open>Swap(0, -1)\<close> panics.
\<close>

definition heap_Pop :: "('a \<Rightarrow> 'a \<Rightarrow> bool) \<Rightarrow> 'a list \<Rightarrow> panic + ('a \<times> 'a list)" where
  "heap_Pop lt h =
     (if h = [] then Inl IndexOutOfRange
      else let n = length h - 1; h = down lt (Swap h 0 n) 0 n in Inr (last h, butlast h))"

section \<open>The selector\<close>

text \<open>
  The first loop of \<open>findTop100Similar\<close>: \<^verbatim>\<open>for i, profile := range profiles\<close>, the
  slice \<open>profiles\<close> being called \<open>table\<close> here.  Each
  entry is pushed with its similarity negated; when the heap holds more than \<open>topN\<close>
  entries its root is popped.  \<open>names[i]\<close> panics when \<open>names\<close> is too short.
\<close>

fun top_loop ::
  "ProteinProfile \<Rightarrow> string list \<Rightarrow> int \<Rightarrow> ProteinProfile list \<Rightarrow> nat \<Rightarrow> MaxHeap
     \<Rightarrow> panic + MaxHeap" where
  "top_loop newProfile names topN [] i minHeap = Inr minHeap"
| "top_loop newProfile names topN (profile # table) i minHeap =
     (let similarity' = calculateSimilarity newProfile profile in
      if i < length names then
        (let minHeap = heap_Push MaxHeap_Less minHeap
                         \<lparr>similarity = fneg similarity', name = names ! i\<rparr>
         in if topN < int (length minHeap) then
              (case heap_Pop MaxHeap_Less minHeap of
                 Inl e \<Rightarrow> Inl e
               | Inr (x, minHeap) \<Rightarrow> top_loop newProfile names topN table (i + 1) minHeap)
            else top_loop newProfile names topN table (i + 1) minHeap)
      else Inl IndexOutOfRange)"

text \<open>The second loop: \<^verbatim>\<open>for minHeap.Len() > 0\<close> pops and appends with the sign restored.\<close>

function drain :: "MaxHeap \<Rightarrow> ProteinSimilarity list \<Rightarrow> panic + ProteinSimilarity list" where
  "drain minHeap result =
     (if 0 < length minHeap then
        (case heap_Pop MaxHeap_Less minHeap of
           Inl e \<Rightarrow> Inl e
         | Inr (item, minHeap') \<Rightarrow>
             drain minHeap' (result @ [item\<lparr>similarity := fneg (similarity item)\<rparr>]))
      else Inr result)"
  by pat_completeness auto
termination
proof (relation "measure (\<lambda>(minHeap, result). length minHeap)")
  show "wf (measure (\<lambda>(minHeap, result). length minHeap))" by simp
next
  fix minHeap :: MaxHeap and result :: "ProteinSimilarity list" and x2 item minHeap'
  assume ne: "0 < length minHeap"
    and pop: "heap_Pop MaxHeap_Less minHeap = Inr x2" and x2: "(item, minHeap') = x2"
  have len_Swap: "length (Swap h i j) = length h" for h :: MaxHeap and i j
    by (simp add: Swap_def)
  have len_down: "length (down lt h i n) = length h" for lt and h :: MaxHeap and i n
  proof (induction lt h i n rule: down.induct)
    case (1 lt h i n)
    show ?case
      by (subst down.simps) (auto simp: Let_def len_Swap "1.IH")
  qed
  from pop x2 ne have "minHeap' = butlast (down MaxHeap_Less (Swap minHeap 0 (length minHeap - 1)) 0 (length minHeap - 1))"
    by (auto simp: heap_Pop_def Let_def)
  then have "length minHeap' = length minHeap - 1"
    by (simp add: len_down len_Swap)
  with ne show "((minHeap', result @ [item\<lparr>similarity := fneg (similarity item)\<rparr>]), minHeap, result)
        \<in> measure (\<lambda>(minHeap, result). length minHeap)"
    by simp
qed

declare drain.simps [simp del]

definition findTop100Similar ::
  "string \<Rightarrow> ProteinProfile list \<Rightarrow> string list \<Rightarrow> int \<Rightarrow> panic + ProteinSimilarity list" where
  "findTop100Similar newProteinSequence table names topN =
     (case buildProfile newProteinSequence of
        Inl e \<Rightarrow> Inl e
      | Inr newProfile \<Rightarrow>
          (case top_loop newProfile names topN table 0 (heap_Init MaxHeap_Less []) of
             Inl e \<Rightarrow> Inl e
           | Inr minHeap \<Rightarrow> drain minHeap []))"

text \<open>The child that \<open>down\<close> compares with the element at \<open>i\<close>, and the parent of \<open>j\<close>.\<close>

definition child :: "('a \<Rightarrow> 'a \<Rightarrow> bool) \<Rightarrow> 'a list \<Rightarrow> nat \<Rightarrow> nat \<Rightarrow> nat" where
  "child lt h i n =
     (if 2 * i + 1 + 1 < n \<and> lt (h ! (2 * i + 1 + 1)) (h ! (2 * i + 1)) then 2 * i + 1 + 1
      else 2 * i + 1)"

definition parent :: "nat \<Rightarrow> nat" where
  "parent j = (j - 1) div 2"

text \<open>
  The heap order, for a \<open>Less\<close> that compares keys: \<open>kless K x y\<close> holds when \<open>x\<close> has the
  greater key, and in a heap no element has a greater key than its parent.  While \<open>up\<close>
  or \<open>down\<close> runs, the order may fail at one index.
\<close>

definition kless :: "('a \<Rightarrow> 'k::linorder) \<Rightarrow> 'a \<Rightarrow> 'a \<Rightarrow> bool" where
  "kless K x y \<longleftrightarrow> K y < K x"

definition is_heap :: "('a \<Rightarrow> 'k::linorder) \<Rightarrow> 'a list \<Rightarrow> nat \<Rightarrow> bool" where
  "is_heap K h n \<longleftrightarrow> (\<forall>k. 0 < k \<and> k < n \<longrightarrow> K (h ! k) \<le> K (h ! parent k))"

definition heap_except_up :: "('a \<Rightarrow> 'k::linorder) \<Rightarrow> 'a list \<Rightarrow> nat \<Rightarrow> nat \<Rightarrow> bool" where
  "heap_except_up K h n j \<longleftrightarrow>
     (\<forall>k. 0 < k \<and> k < n \<and> k \<noteq> j \<longrightarrow> K (h ! k) \<le> K (h ! parent k))
     \<and> (\<forall>k. 0 < k \<and> k < n \<and> parent k = j \<and> 0 < j \<longrightarrow> K (h ! k) \<le> K (h ! parent j))"

definition heap_except_down :: "('a \<Rightarrow> 'k::linorder) \<Rightarrow> 'a list \<Rightarrow> nat \<Rightarrow> nat \<Rightarrow> bool" where
  "heap_except_down K h n i \<longleftrightarrow>
     (\<forall>k. 0 < k \<and> k < n \<and> parent k \<noteq> i \<longrightarrow> K (h ! k) \<le> K (h ! parent k))
     \<and> (\<forall>k. 0 < k \<and> k < n \<and> parent k = i \<and> 0 < i \<longrightarrow> K (h ! k) \<le> K (h ! parent i))"

text \<open>
  A key for the order of the numbers of \<open>float64\<close>: the infinities lie below and above
  the finite numbers.  The key of NaN is of no use, NaN is not ordered.
\<close>

fun fkey :: "float64 \<Rightarrow> int \<times> rat" where
  "fkey NInf = (- 1, 0)"
| "fkey (Fin x) = (0, x)"
| "fkey PInf = (1, 0)"
| "fkey NaN = (0, 0)"

definition stored_key :: "ProteinSimilarity \<Rightarrow> int \<times> rat" where
  "stored_key e = fkey (similarity e)"

text \<open>
  The entries of the table with their scores, in the order of the table; and an entry
  with the sign of its similarity changed, as it is pushed and as it is returned.
\<close>

definition scored :: "ProteinProfile \<Rightarrow> ProteinProfile list \<Rightarrow> string list \<Rightarrow> ProteinSimilarity list" where
  "scored newProfile table names =
     map (\<lambda>(profile, n). \<lparr>similarity = calculateSimilarity newProfile profile, name = n\<rparr>)
       (zip table names)"

definition negated :: "ProteinSimilarity \<Rightarrow> ProteinSimilarity" where
  "negated e = e\<lparr>similarity := fneg (similarity e)\<rparr>"

definition no_NaN :: "ProteinSimilarity list \<Rightarrow> bool" where
  "no_NaN h \<longleftrightarrow> (\<forall>e\<in>set h. similarity e \<noteq> NaN)"

section \<open>Properties of the profiler\<close>

lemma byte_sub_A:
  assumes "isUpper c"
  shows "uint ((of_char c :: 8 word) - 65) = int (of_char c) - 65"
proof -
  define n :: nat where "n = of_char c"
  have n: "65 \<le> n" "n \<le> 90" using assms by (simp_all add: isUpper_def n_def)
  have c: "(of_char c :: 8 word) = of_nat n" by (simp add: n_def of_nat_of_char)
  have "(of_nat n :: 8 word) - 65 = of_nat (n - 65)"
    using n by (simp only: of_nat_diff of_nat_numeral)
  moreover have "unat (of_nat (n - 65) :: 8 word) = n - 65"
    by (rule of_nat_inverse [OF refl]) (use n in simp)
  ultimately have "uint ((of_nat n :: 8 word) - 65) = int (n - 65)"
    by (simp only: uint_nat)
  then show ?thesis using n unfolding c by (simp add: n_def)
qed

lemma bigramIndex_bounds:
  assumes "isUpper c1" "isUpper c2"
  shows "0 \<le> bigramIndex c1 c2 \<and> bigramIndex c1 c2 \<le> 675"
  using assms by (simp add: bigramIndex_def byte_sub_A) (simp add: isUpper_def)

lemma buildProfile_loop_upper:
  assumes "list_all isUpper s" and "length profile = 676"
  shows "\<exists>p. buildProfile_loop s i profile sum0 = Inr p \<and> length (Profile p) = 676
            \<and> Sum p = sum0 + of_nat (length s - 1 - i)"
  using assms
proof (induction s i profile sum0 rule: buildProfile_loop.induct)
  case (1 sequence i profile sum0)
  show ?case
  proof (cases "i + 1 < length sequence")
    case False
    then show ?thesis using "1.prems"(2) by (simp add: buildProfile_loop.simps)
  next
    case True
    define index where "index = bigramIndex (sequence ! i) (sequence ! (i + 1))"
    have "isUpper (sequence ! i)" "isUpper (sequence ! (i + 1))"
      using "1.prems"(1) True by (simp_all add: list_all_length)
    then have ix: "0 \<le> index \<and> index < int (length profile)"
      using bigramIndex_bounds [of "sequence ! i" "sequence ! (i + 1)"] "1.prems"(2)
      by (simp add: index_def)
    have len: "length (profile[nat index := profile ! nat index + 1]) = 676"
      using "1.prems"(2) by simp
    from "1.IH" [OF True index_def ix "1.prems"(1) len] obtain p where
      p: "buildProfile_loop sequence (i + 1) (profile[nat index := profile ! nat index + 1]) (sum0 + 1) = Inr p"
        "length (Profile p) = 676" "Sum p = sum0 + 1 + of_nat (length sequence - 1 - (i + 1))"
      by blast
    have "length sequence - 1 - i = Suc (length sequence - 1 - (i + 1))"
      using True by simp
    then have "Sum p = sum0 + of_nat (length sequence - 1 - i)"
      using p(3) by simp
    moreover have "buildProfile_loop sequence i profile sum0 = Inr p"
      using True ix p(1) by (subst buildProfile_loop.simps) (simp add: index_def Let_def)
    ultimately show ?thesis using p(2) by blast
  qed
qed

lemma unat_succ32:
  fixes x :: "32 word"
  assumes "unat x + 1 < 2 ^ 32"
  shows "unat (x + 1) = unat x + 1"
  using assms unat_add_lem [of x 1] by simp

lemma sum_unat_bump:
  fixes profile :: "32 word list"
  assumes "j < length profile" and "sum_list (map unat profile) + 1 < 2 ^ 32"
  shows "sum_list (map unat (profile[j := profile ! j + 1])) = sum_list (map unat profile) + 1"
proof -
  have "unat (profile ! j) \<in> set (map unat profile)"
    using assms(1) by (metis length_map nth_map nth_mem)
  then have le: "unat (profile ! j) \<le> sum_list (map unat profile)"
    by (auto intro: member_le_sum_list)
  then have "unat (profile ! j) + 1 < 2 ^ 32" using assms(2) by linarith
  then have u: "unat (profile ! j + 1) = unat (profile ! j) + 1" by (rule unat_succ32)
  have "sum_list ((map unat profile)[j := unat (profile ! j + 1)])
          = sum_list (map unat profile) + unat (profile ! j + 1) - map unat profile ! j"
    by (rule sum_list_update) (use assms(1) in simp)
  then show ?thesis using u le assms(1) by (simp add: map_update)
qed

lemma buildProfile_loop_counts:
  assumes "length profile = 676"
    and "sum_list (map unat profile) + (length s - 1 - i) < 2 ^ 32"
    and "buildProfile_loop s i profile sum0 = Inr p"
  shows "sum_list (map unat (Profile p)) = sum_list (map unat profile) + (length s - 1 - i)"
  using assms
proof (induction s i profile sum0 rule: buildProfile_loop.induct)
  case (1 sequence i profile sum0)
  show ?case
  proof (cases "i + 1 < length sequence")
    case False
    then show ?thesis using "1.prems"(3) by (auto simp: buildProfile_loop.simps)
  next
    case True
    define index where "index = bigramIndex (sequence ! i) (sequence ! (i + 1))"
    have run: "buildProfile_loop sequence i profile sum0 =
        (if 0 \<le> index \<and> index < int (length profile) then
           buildProfile_loop sequence (i + 1)
             (profile[nat index := profile ! nat index + 1]) (sum0 + 1)
         else Inl IndexOutOfRange)"
      using True by (subst buildProfile_loop.simps) (simp add: index_def Let_def)
    with "1.prems"(3) have ix: "0 \<le> index \<and> index < int (length profile)"
      by (auto split: if_splits)
    with run "1.prems"(3) have next_run: "buildProfile_loop sequence (i + 1)
             (profile[nat index := profile ! nat index + 1]) (sum0 + 1) = Inr p"
      by simp
    have rest: "length sequence - 1 - i = Suc (length sequence - 1 - (i + 1))"
      using True by simp
    have bump: "sum_list (map unat (profile[nat index := profile ! nat index + 1]))
                  = sum_list (map unat profile) + 1"
      by (rule sum_unat_bump) (use ix "1.prems"(2) rest in auto)
    have "sum_list (map unat (Profile p)) =
            sum_list (map unat (profile[nat index := profile ! nat index + 1]))
              + (length sequence - 1 - (i + 1))"
      by (rule "1.IH" [OF True index_def ix _ _ next_run])
         (use "1.prems"(1,2) bump rest in simp_all)
    then show ?thesis using bump rest by simp
  qed
qed

lemma buildProfile_loop_replicate_A:
  assumes "length profile = 676"
  shows "buildProfile_loop (replicate n CHR ''A'') i profile sum0 =
           Inr \<lparr>Profile = profile[0 := profile ! 0 + of_nat (n - 1 - i)],
                Sum = sum0 + of_nat (n - 1 - i)\<rparr>"
  using assms
proof (induction "n - 1 - i" arbitrary: i profile sum0)
  case 0
  then have "\<not> i + 1 < length (replicate n CHR ''A'')" by simp
  then show ?case using 0 by (subst buildProfile_loop.simps) simp
next
  case (Suc k)
  then have lt: "i + 1 < n" by simp
  have k: "k = n - 1 - (i + 1)" using Suc(2) by simp
  have ix: "bigramIndex CHR ''A'' CHR ''A'' = 0" by (simp add: bigramIndex_def)
  have "buildProfile_loop (replicate n CHR ''A'') i profile sum0 =
          buildProfile_loop (replicate n CHR ''A'') (i + 1) (profile[0 := profile ! 0 + 1]) (sum0 + 1)"
    using lt Suc(3) by (subst buildProfile_loop.simps) (simp add: ix)
  also have "\<dots> = Inr \<lparr>Profile = (profile[0 := profile ! 0 + 1])[0 := (profile[0 := profile ! 0 + 1]) ! 0 + of_nat (n - 1 - (i + 1))],
                Sum = sum0 + 1 + of_nat (n - 1 - (i + 1))\<rparr>"
    by (rule Suc(1) [OF k]) (use Suc(3) in simp)
  finally show ?case using Suc(2) [symmetric] Suc(3) k by (simp add: add.assoc)
qed

lemma buildProfile_upper:
  assumes "list_all isUpper s"
  shows "\<exists>p. buildProfile s = Inr p \<and> length (Profile p) = 676
            \<and> Sum p = of_nat (length s - 1)"
  using buildProfile_loop_upper [OF assms, of "replicate 676 0" 0 0]
  by (simp add: buildProfile_def)

lemma buildProfile_short:
  assumes "length s < 2"
  shows "buildProfile s = Inr \<lparr>Profile = replicate 676 0, Sum = 0\<rparr>"
  using assms by (simp add: buildProfile_def buildProfile_loop.simps)

text \<open>
  Claim C10.  On a sequence of bytes \<open>'A'\<close> .. \<open>'Z'\<close> every index that \<open>buildProfile\<close>
  computes from two adjacent characters lies between 0 and 675, so each write into the
  array of 676 counts is in bounds and \<open>buildProfile\<close> returns a profile: it does not panic.
\<close>

theorem buildProfile_index_in_bounds:
  assumes "list_all isUpper s"
  shows "(\<forall>i. i + 1 < length s \<longrightarrow>
            0 \<le> bigramIndex (s ! i) (s ! (i + 1)) \<and> bigramIndex (s ! i) (s ! (i + 1)) \<le> 675)
         \<and> (\<exists>p. buildProfile s = Inr p)"
proof
  show "\<forall>i. i + 1 < length s \<longrightarrow>
            0 \<le> bigramIndex (s ! i) (s ! (i + 1)) \<and> bigramIndex (s ! i) (s ! (i + 1)) \<le> 675"
    using assms by (auto simp: list_all_length intro!: bigramIndex_bounds [THEN conjunct1] bigramIndex_bounds [THEN conjunct2])
  show "\<exists>p. buildProfile s = Inr p"
    using buildProfile_upper [OF assms] by blast
qed

theorem buildProfile_index_in_bounds_witness:
  "list_all isUpper ''AZQ'' \<and> bigramIndex CHR ''Z'' CHR ''Q'' \<le> 675
     \<and> (\<exists>p. buildProfile ''AZQ'' = Inr p)"
proof -
  have u: "list_all isUpper ''AZQ''" by (simp add: isUpper_def)
  note t = buildProfile_index_in_bounds [OF u]
  from t [THEN conjunct1, rule_format, of 1] have "bigramIndex CHR ''Z'' CHR ''Q'' \<le> 675"
    by simp
  with u t [THEN conjunct2] show ?thesis by simp
qed

text \<open>
  Claim C5.  For a sequence of uppercase letters, \<open>Sum\<close> of the profile that
  \<open>buildProfile\<close> returns is \<open>max 0 (length s - 1)\<close>, and a sequence shorter than 2 gives the
  all-zero profile with \<open>Sum = 0\<close>.  The length of a Go string is an \<open>int\<close>, hence below
  \<open>2 ^ 63\<close>.
\<close>

theorem buildProfile_Sum:
  assumes "list_all isUpper s" and "length s < 2 ^ 63"
  shows "\<exists>p. buildProfile s = Inr p
            \<and> int (unat (Sum p)) = max 0 (int (length s) - 1)
            \<and> (length s < 2 \<longrightarrow> p = \<lparr>Profile = replicate 676 0, Sum = 0\<rparr>)"
proof -
  from buildProfile_upper [OF assms(1)] obtain p where
    p: "buildProfile s = Inr p" "Sum p = of_nat (length s - 1)" by blast
  have "unat (of_nat (length s - 1) :: 64 word) = length s - 1"
    by (rule of_nat_inverse [OF refl]) (use assms(2) in simp)
  then have "int (unat (Sum p)) = max 0 (int (length s) - 1)"
    using p(2) by (cases s) (simp_all add: max_def)
  moreover have "length s < 2 \<longrightarrow> p = \<lparr>Profile = replicate 676 0, Sum = 0\<rparr>"
    using buildProfile_short [of s] p(1) by auto
  ultimately show ?thesis using p(1) by blast
qed

theorem buildProfile_Sum_witness:
  "list_all isUpper ''MAFS'' \<and> length ''MAFS'' < (2::nat) ^ 63
     \<and> (\<exists>p. buildProfile ''MAFS'' = Inr p \<and> int (unat (Sum p)) = 3)"
proof -
  have u: "list_all isUpper ''MAFS''" by (simp add: isUpper_def)
  have l: "length ''MAFS'' < (2::nat) ^ 63" by simp
  from buildProfile_Sum [OF u l] u l show ?thesis by simp
qed

text \<open>
  On at most \<open>2 ^ 32\<close> uppercase letters no count of a bigram can reach \<open>2 ^ 32\<close>, and
  the profile has \<open>Sum\<close> equal to the sum of its 676 counts.
\<close>

lemma buildProfile_inv:
  assumes "list_all isUpper s" and "length s \<le> 2 ^ 32"
  shows "\<exists>p. buildProfile s = Inr p \<and> profile_inv p"
proof -
  from buildProfile_upper [OF assms(1)] obtain p where
    p: "buildProfile s = Inr p" "length (Profile p) = 676" "Sum p = of_nat (length s - 1)"
    by blast
  have z: "sum_list (map unat (replicate 676 (0::32 word))) = 0" by simp
  have "sum_list (map unat (Profile p))
          = sum_list (map unat (replicate 676 (0::32 word))) + (length s - 1 - 0)"
    by (rule buildProfile_loop_counts [where ?sum0.0 = 0])
       (use assms(2) p(1) in \<open>simp_all add: buildProfile_def sum_list_replicate\<close>)
  then have c: "sum_list (map unat (Profile p)) = length s - 1" by simp
  have "unat (of_nat (length s - 1) :: 64 word) = length s - 1"
    by (rule of_nat_inverse [OF refl]) (use assms(2) in simp)
  then show ?thesis using p c by (auto simp: profile_inv_def)
qed

text \<open>
  Claim C6 as stated fails: the counts are \<open>uint32\<close> and \<open>Sum\<close> is \<open>uint64\<close>.  On
  \<open>2 ^ 32 + 1\<close> letters \<open>A\<close> the count of the bigram \<open>AA\<close> is incremented \<open>2 ^ 32\<close> times
  and wraps to 0, while \<open>Sum\<close> is \<open>2 ^ 32\<close>.
\<close>

theorem buildProfile_invariant_overflow:
  "list_all isUpper (replicate 4294967297 CHR ''A'')
   \<and> buildProfile (replicate 4294967297 CHR ''A'')
       = Inr \<lparr>Profile = replicate 676 0, Sum = 4294967296\<rparr>
   \<and> \<not> profile_inv \<lparr>Profile = replicate 676 0, Sum = 4294967296\<rparr>"
proof -
  have "list_all isUpper (replicate 4294967297 CHR ''A'')"
    by (simp add: list_all_iff isUpper_def)
  moreover have "buildProfile (replicate 4294967297 CHR ''A'')
       = Inr \<lparr>Profile = replicate 676 0, Sum = 4294967296\<rparr>"
  proof -
    have w: "(of_nat (4294967297 - 1 - 0) :: 32 word) = 0" by simp
    have "(replicate 676 (0::32 word))[0 := replicate 676 0 ! 0 + 0] = replicate 676 0"
      by (simp add: list_update_same_conv)
    then show ?thesis
      unfolding buildProfile_def
      by (subst buildProfile_loop_replicate_A) (simp_all only: w length_replicate, simp)
  qed
  moreover have "\<not> profile_inv \<lparr>Profile = replicate 676 0, Sum = 4294967296\<rparr>"
    by (simp add: profile_inv_def sum_list_replicate)
  ultimately show ?thesis by blast
qed

section \<open>Properties of rounding and of the similarity\<close>

lemma bitlen_rat_bounds:
  fixes a :: int
  assumes "0 < a"
  shows "(2::rat) powi (bitlen a - 1) \<le> of_int a" and "of_int a < (2::rat) powi bitlen a"
proof -
  from bitlen_bounds [OF assms] have b: "2 ^ nat (bitlen a - 1) \<le> a" "a < 2 ^ nat (bitlen a)"
    by simp_all
  have pos: "1 \<le> bitlen a" using assms bitlen_nonneg [of a] bitlen_eq_zero_iff [of a] by linarith
  have "(of_int (2 ^ nat (bitlen a - 1)) :: rat) \<le> of_int a" using b(1) by (simp only: of_int_le_iff)
  then show "(2::rat) powi (bitlen a - 1) \<le> of_int a"
    using pos by (simp add: power_int_def)
  have "(of_int a :: rat) < of_int (2 ^ nat (bitlen a))" using b(2) by (simp only: of_int_less_iff)
  then show "of_int a < (2::rat) powi bitlen a"
    using pos by (simp add: power_int_def)
qed

lemma ilog2_bounds:
  assumes "0 < x"
  shows "2 powi (ilog2 x) \<le> x" and "x < 2 powi (ilog2 x + 1)"
proof -
  obtain a b where q: "quotient_of x = (a, b)" by (cases "quotient_of x")
  then have b: "0 < b" and x: "x = of_int a / of_int b"
    by (simp_all add: quotient_of_denom_pos quotient_of_div)
  have a: "0 < a" using assms b x by (simp add: zero_less_divide_iff)
  define e where "e = bitlen a - bitlen b"
  note A = bitlen_rat_bounds [OF a] and B = bitlen_rat_bounds [OF b]
  have bpos: "(0::rat) < of_int b" using b by simp
  have lo: "2 powi (e - 1) \<le> x"
  proof -
    have "(2::rat) powi (e - 1) * of_int b \<le> 2 powi (e - 1) * 2 powi bitlen b"
      using B(2) by (intro mult_left_mono) simp_all
    also have "\<dots> = 2 powi (bitlen a - 1)"
      by (simp add: e_def flip: power_int_add)
    also have "\<dots> \<le> of_int a" by (rule A(1))
    finally show ?thesis using bpos by (simp add: x pos_le_divide_eq)
  qed
  have hi: "x < 2 powi (e + 1)"
  proof -
    have "of_int a < (2::rat) powi bitlen a" by (rule A(2))
    also have "\<dots> = 2 powi (e + 1) * 2 powi (bitlen b - 1)"
      by (simp add: e_def flip: power_int_add)
    also have "\<dots> \<le> 2 powi (e + 1) * of_int b"
      using B(1) by (intro mult_left_mono) simp_all
    finally show ?thesis using bpos by (simp add: x pos_divide_less_eq)
  qed
  have il: "ilog2 x = (if 2 powi e \<le> x then e else e - 1)"
    by (simp add: ilog2_def q e_def Let_def)
  show "2 powi (ilog2 x) \<le> x" using lo by (simp add: il)
  show "x < 2 powi (ilog2 x + 1)" using hi by (auto simp: il not_le)
qed

lemma rne_bounds: "\<lfloor>q\<rfloor> \<le> rne q" "rne q \<le> \<lceil>q\<rceil>"
proof -
  show "\<lfloor>q\<rfloor> \<le> rne q" by (simp add: rne_def Let_def)
  have "q - of_int \<lfloor>q\<rfloor> \<noteq> 0 \<Longrightarrow> \<lceil>q\<rceil> = \<lfloor>q\<rfloor> + 1"
    by (metis ceiling_altdef eq_iff_diff_eq_0 of_int_floor_cancel)
  then show "rne q \<le> \<lceil>q\<rceil>"
    by (auto simp: rne_def Let_def)
qed

lemma rne_of_int [simp]: "rne (of_int k) = k"
  by (simp add: rne_def)

lemma two_powi_less_cancel:
  assumes "(2::rat) powi a < 2 powi b"
  shows "a < b"
proof (rule ccontr)
  assume "\<not> a < b"
  then have "(2::rat) powi b \<le> 2 powi a" by (intro power_int_increasing) simp_all
  with assms show False by simp
qed

lemma two_powi_add: "(2::rat) powi a * 2 powi b = 2 powi (a + b)"
  by (simp add: power_int_add)

lemma round53_0 [simp]: "round53 0 = 0"
  by (simp add: round53_def)

lemma round53_1 [simp]: "round53 1 = 1"
  by (simp add: round53_def ilog2_def rne_def bitlen_alt_def)

lemma round53_bounds:
  assumes "0 < x"
  shows "2 powi (ilog2 x) \<le> round53 x" and "round53 x \<le> 2 powi (ilog2 x + 1)"
proof -
  define e where "e = ilog2 x"
  define u :: rat where "u = 2 powi (e - 52)"
  have u: "0 < u" by (simp add: u_def)
  have r: "round53 x = of_int (rne (x / u)) * u"
    using assms by (simp add: round53_def u_def e_def Let_def)
  note I = ilog2_bounds [OF assms, folded e_def]
  have "2 powi 52 * u = 2 powi e"
    unfolding u_def two_powi_add by simp
  then have "2 powi 52 * u \<le> x" using I(1) by simp
  then have "(2::rat) ^ 52 \<le> x / u" using u by (simp add: pos_le_divide_eq)
  then have "(of_int (2 ^ 52) :: rat) \<le> x / u" by simp
  then have "2 ^ 52 \<le> \<lfloor>x / u\<rfloor>" by (simp only: le_floor_iff)
  then have lo: "2 ^ 52 \<le> rne (x / u)" using rne_bounds(1) [of "x / u"] by linarith
  have "53 + (e - 52) = e + 1" by simp
  then have "2 powi 53 * u = 2 powi (e + 1)"
    unfolding u_def two_powi_add by (simp only:)
  then have "x < 2 powi 53 * u" using I(2) by simp
  then have "x / u \<le> (2::rat) ^ 53" using u by (simp add: pos_divide_le_eq)
  then have "x / u \<le> (of_int (2 ^ 53) :: rat)" by simp
  then have "\<lceil>x / u\<rceil> \<le> 2 ^ 53" by (simp only: ceiling_le_iff)
  then have hi: "rne (x / u) \<le> 2 ^ 53" using rne_bounds(2) [of "x / u"] by linarith
  have "(of_int (2 ^ 52) :: rat) * u \<le> of_int (rne (x / u)) * u"
    using lo u by (intro mult_right_mono) (simp_all only: of_int_le_iff less_imp_le)
  then show "2 powi (ilog2 x) \<le> round53 x"
    using \<open>2 powi 52 * u = 2 powi e\<close> by (simp add: r e_def)
  have "(of_int (rne (x / u)) :: rat) * u \<le> of_int (2 ^ 53) * u"
    using hi u by (intro mult_right_mono) (simp_all only: of_int_le_iff less_imp_le)
  then show "round53 x \<le> 2 powi (ilog2 x + 1)"
    using \<open>2 powi 53 * u = 2 powi (e + 1)\<close> by (simp add: r e_def)
qed

lemma round53_pos: "0 < x \<Longrightarrow> 0 < round53 x"
  using round53_bounds(1) [of x] by (rule_tac less_le_trans [of _ "2 powi ilog2 x"]) simp_all

lemma round53_le_1:
  assumes "0 < x" and "x \<le> 1"
  shows "round53 x \<le> 1"
proof (cases "x = 1")
  case True
  then show ?thesis by simp
next
  case False
  then have "x < 1" using assms(2) by simp
  with ilog2_bounds(1) [OF assms(1)] have "(2::rat) powi ilog2 x < 2 powi 0" by simp
  then have "ilog2 x < 0" by (rule two_powi_less_cancel)
  then have "(2::rat) powi (ilog2 x + 1) \<le> 2 powi 0"
    by (intro power_int_increasing) simp_all
  with round53_bounds(2) [OF assms(1)] show ?thesis by simp
qed

lemma round53_nat_exact:
  assumes "n < 2 ^ 53"
  shows "round53 (of_nat n) = of_nat n"
proof (cases "n = 0")
  case True
  then show ?thesis by simp
next
  case False
  define x :: rat where "x = of_nat n"
  have x: "0 < x" using False by (simp add: x_def)
  define e where "e = ilog2 x"
  have "x < 2 ^ 53" using assms unfolding x_def
    by (metis of_nat_less_iff of_nat_numeral of_nat_power)
  with ilog2_bounds(1) [OF x] have "(2::rat) powi e < 2 powi 53" by (simp add: e_def)
  then have e: "e \<le> 52" using two_powi_less_cancel [of e 53] by simp
  define k where "k = nat (52 - e)"
  have u: "(2::rat) powi (e - 52) = 1 / 2 ^ k"
    using e by (simp add: power_int_def k_def field_simps)
  have "x / (2 powi (e - 52)) = of_int (int n * 2 ^ k)"
    by (simp add: u x_def)
  then have "rne (x / (2 powi (e - 52))) = int n * 2 ^ k"
    by (simp only: rne_of_int)
  moreover have "round53 x = of_int (rne (x / 2 powi (e - 52))) * 2 powi (e - 52)"
    using x by (simp add: round53_def e_def Let_def)
  ultimately have "round53 x = of_int (int n * 2 ^ k) * (1 / 2 ^ k)"
    by (simp only: u)
  then show ?thesis by (simp add: x_def)
qed

lemma unat_ucast_32_64: "unat (ucast (w :: 32 word) :: 64 word) = unat w"
proof -
  have "unat w < 2 ^ 32" using unsigned_less [of w] by simp
  then have "unat w < 2 ^ 64" by simp
  then have "take_bit 64 (unat w) = unat w" by (rule take_bit_nat_eq_self)
  then show ?thesis by (simp add: unsigned_ucast_eq)
qed

lemma unat_add_ucast:
  fixes acc :: "64 word" and w :: "32 word"
  assumes "unat acc + unat w < 2 ^ 64"
  shows "unat (acc + ucast w) = unat acc + unat w"
  using assms unat_add_lem [of acc "ucast w"] by (simp add: unat_ucast_32_64)

lemma minSum_bound: "minSum X Y n \<le> n * 2 ^ 32"
proof (induction n)
  case 0
  show ?case by (simp add: minSum_def)
next
  case (Suc n)
  have "unat (Profile X ! n) < 2 ^ 32" using unsigned_less [of "Profile X ! n"] by simp
  then have "min (unat (Profile X ! n)) (unat (Profile Y ! n)) \<le> 2 ^ 32" by simp
  with Suc show ?case by (simp add: minSum_def)
qed

lemma sumMin_step_unat:
  assumes "unat acc + min (unat (Profile X ! i)) (unat (Profile Y ! i)) < 2 ^ 64"
  shows "unat (sumMin_step X Y i acc) = unat acc + min (unat (Profile X ! i)) (unat (Profile Y ! i))"
proof (cases "Profile X ! i < Profile Y ! i")
  case True
  then have m: "min (unat (Profile X ! i)) (unat (Profile Y ! i)) = unat (Profile X ! i)"
    by (simp add: word_less_nat_alt)
  show ?thesis using True assms unfolding m by (simp add: sumMin_step_def unat_add_ucast)
next
  case False
  then have m: "min (unat (Profile X ! i)) (unat (Profile Y ! i)) = unat (Profile Y ! i)"
    by (simp add: word_less_nat_alt)
  show ?thesis using False assms unfolding m by (simp add: sumMin_step_def unat_add_ucast)
qed

lemma fold_sumMin:
  assumes "n \<le> 676"
  shows "unat (fold (sumMin_step X Y) [0..<n] 0) = minSum X Y n"
  using assms
proof (induction n)
  case 0
  show ?case by (simp add: minSum_def)
next
  case (Suc n)
  then have IH: "unat (fold (sumMin_step X Y) [0..<n] 0) = minSum X Y n" by simp
  have "minSum X Y (Suc n) \<le> Suc n * 2 ^ 32" by (rule minSum_bound)
  also have "\<dots> \<le> 676 * 2 ^ 32" using Suc.prems by simp
  also have "\<dots> < (2::nat) ^ 64" by simp
  finally have "minSum X Y n + min (unat (Profile X ! n)) (unat (Profile Y ! n)) < 2 ^ 64"
    by (simp add: minSum_def)
  then show ?case
    by (simp add: sumMin_step_unat IH) (simp add: minSum_def)
qed

lemma minSum_le_left:
  assumes "length (Profile X) = 676"
  shows "minSum X Y 676 \<le> sum_list (map unat (Profile X))"
proof -
  have "sum_list (map unat (Profile X)) = (\<Sum>i = 0..<676. unat (Profile X ! i))"
    using assms by (simp add: sum_list_sum_nth)
  moreover have "minSum X Y 676 \<le> (\<Sum>i = 0..<676. unat (Profile X ! i))"
    unfolding minSum_def by (rule sum_mono) simp
  ultimately show ?thesis by simp
qed

lemma minSum_le_right:
  assumes "length (Profile Y) = 676"
  shows "minSum X Y 676 \<le> sum_list (map unat (Profile Y))"
proof -
  have "sum_list (map unat (Profile Y)) = (\<Sum>i = 0..<676. unat (Profile Y ! i))"
    using assms by (simp add: sum_list_sum_nth)
  moreover have "minSum X Y 676 \<le> (\<Sum>i = 0..<676. unat (Profile Y ! i))"
    unfolding minSum_def by (rule sum_mono) simp
  ultimately show ?thesis by simp
qed

lemma minSum_same:
  assumes "length (Profile X) = 676"
  shows "minSum X X 676 = sum_list (map unat (Profile X))"
  using assms by (simp add: sum_list_sum_nth minSum_def)

lemma sum_unat32_bound:
  fixes xs :: "32 word list"
  shows "sum_list (map unat xs) \<le> length xs * 2 ^ 32"
proof (induction xs)
  case Nil
  show ?case by simp
next
  case (Cons w xs)
  have "unat w < 2 ^ 32" using unsigned_less [of w, where ?'a = nat] by simp
  with Cons show ?case by simp
qed

lemma profile_inv_Sum_bound:
  assumes "profile_inv X"
  shows "unat (Sum X) < 2 ^ 42"
  using assms sum_unat32_bound [of "Profile X"] by (simp add: profile_inv_def)

lemma calculateSimilarity_inv:
  assumes "profile_inv X" and "profile_inv Y"
  defines "a \<equiv> minSum X Y 676"
  defines "b \<equiv> unat (Sum X) + unat (Sum Y) - a"
  shows "calculateSimilarity X Y = fdiv (Fin (of_nat a)) (Fin (of_nat b))"
    and "a \<le> unat (Sum X)" and "a \<le> unat (Sum Y)"
proof -
  define sumMin where "sumMin = fold (sumMin_step X Y) [0..<676] 0"
  have sm: "unat sumMin = a" unfolding sumMin_def a_def by (rule fold_sumMin) simp
  have lx: "length (Profile X) = 676" and ly: "length (Profile Y) = 676"
    using assms(1,2) by (simp_all add: profile_inv_def)
  show ax: "a \<le> unat (Sum X)"
    using minSum_le_left [OF lx, of Y] assms(1) by (simp add: a_def profile_inv_def)
  show ay: "a \<le> unat (Sum Y)"
    using minSum_le_right [OF ly, of X] assms(2) by (simp add: a_def profile_inv_def)
  note bx = profile_inv_Sum_bound [OF assms(1)] and by' = profile_inv_Sum_bound [OF assms(2)]
  have "unat (Sum X) + unat (Sum Y) < 2 ^ 64" using bx by' by simp
  then have add: "unat (Sum X + Sum Y) = unat (Sum X) + unat (Sum Y)"
    using unat_add_lem [of "Sum X" "Sum Y"] by simp
  have "sumMin \<le> Sum X + Sum Y"
    using ax add sm by (simp add: word_le_nat_alt)
  then have "unat (Sum X + Sum Y - sumMin) = unat (Sum X + Sum Y) - unat sumMin"
    by (rule unat_sub)
  then have sx: "unat (Sum X + Sum Y - sumMin) = b" by (simp add: add sm b_def)
  have "a < 2 ^ 53" using ax bx by simp
  then have fa: "float64_of_uint64 sumMin = Fin (of_nat a)"
    by (simp add: float64_of_uint64_def sm round53_nat_exact)
  have "b < 2 ^ 53" using bx by' by (simp add: b_def)
  then have fb: "float64_of_uint64 (Sum X + Sum Y - sumMin) = Fin (of_nat b)"
    by (simp add: float64_of_uint64_def sx round53_nat_exact)
  show "calculateSimilarity X Y = fdiv (Fin (of_nat a)) (Fin (of_nat b))"
    by (simp add: calculateSimilarity_def Let_def sumMin_def [symmetric] fa fb)
qed

text \<open>
  Claim C7.  For a profile \<open>X\<close> that satisfies the invariant and has \<open>Sum > 0\<close>,
  \<open>calculateSimilarity X X\<close> is exactly 1.0.
\<close>

theorem calculateSimilarity_self:
  assumes "profile_inv X" and "0 < Sum X"
  shows "calculateSimilarity X X = Fin 1"
proof -
  have len: "length (Profile X) = 676" using assms(1) by (simp add: profile_inv_def)
  have a: "minSum X X 676 = unat (Sum X)"
    using minSum_same [OF len] assms(1) by (simp add: profile_inv_def)
  have pos: "0 < unat (Sum X)" using assms(2) by (simp add: word_less_nat_alt)
  define n where "n = unat (Sum X)"
  have "calculateSimilarity X X = fdiv (Fin (of_nat n)) (Fin (of_nat n))"
    using calculateSimilarity_inv(1) [OF assms(1) assms(1)] by (simp add: a n_def)
  then show ?thesis using pos by (simp add: n_def [symmetric])
qed

theorem calculateSimilarity_self_witness:
  "profile_inv \<lparr>Profile = (replicate 676 0)[27 := 3], Sum = 3\<rparr>
   \<and> calculateSimilarity \<lparr>Profile = (replicate 676 0)[27 := 3], Sum = 3\<rparr>
        \<lparr>Profile = (replicate 676 0)[27 := 3], Sum = 3\<rparr> = Fin 1"
proof -
  have "sum_list (map unat ((replicate 676 (0::32 word))[27 := 3])) = 3"
    by (simp add: map_update sum_list_update sum_list_replicate)
  then have i: "profile_inv \<lparr>Profile = (replicate 676 0)[27 := 3], Sum = 3\<rparr>"
    by (simp add: profile_inv_def)
  have p: "0 < Sum \<lparr>Profile = (replicate 676 0)[27 := 3], Sum = 3\<rparr>" by simp
  from calculateSimilarity_self [OF i p] i show ?thesis by simp
qed

text \<open>
  Claim C8.  For profiles \<open>X\<close> and \<open>Y\<close> that satisfy the invariant and have \<open>Sum > 0\<close>,
  \<open>calculateSimilarity X Y\<close> is a finite number between 0 and 1.
\<close>

theorem calculateSimilarity_bounded:
  assumes "profile_inv X" and "profile_inv Y" and "0 < Sum X" and "0 < Sum Y"
  shows "\<exists>r. calculateSimilarity X Y = Fin r \<and> 0 \<le> r \<and> r \<le> 1"
proof -
  define a where "a = minSum X Y 676"
  define b where "b = unat (Sum X) + unat (Sum Y) - a"
  note c = calculateSimilarity_inv [OF assms(1,2), folded a_def, folded b_def]
  have pos: "0 < unat (Sum X)" using assms(3) by (simp add: word_less_nat_alt)
  have ab: "a \<le> b" using c(2,3) by (simp add: b_def)
  have b: "0 < b" using c(3) pos by (simp add: b_def)
  define q :: rat where "q = of_nat a / of_nat b"
  have q: "0 \<le> q" "q \<le> 1" using ab b by (simp_all add: q_def)
  have r: "calculateSimilarity X Y = Fin (round53 q)"
    using c(1) b by (simp add: q_def)
  have "0 \<le> round53 q \<and> round53 q \<le> 1"
  proof (cases "q = 0")
    case True
    then show ?thesis by simp
  next
    case False
    then have "0 < q" using q(1) by simp
    then show ?thesis using round53_pos [of q] round53_le_1 [of q] q(2) by simp
  qed
  with r show ?thesis by blast
qed

theorem calculateSimilarity_bounded_witness:
  "profile_inv \<lparr>Profile = (replicate 676 0)[27 := 3], Sum = 3\<rparr>
   \<and> profile_inv \<lparr>Profile = (replicate 676 0)[27 := 1, 5 := 1], Sum = 2\<rparr>
   \<and> (\<exists>r. calculateSimilarity \<lparr>Profile = (replicate 676 0)[27 := 3], Sum = 3\<rparr>
        \<lparr>Profile = (replicate 676 0)[27 := 1, 5 := 1], Sum = 2\<rparr> = Fin r \<and> 0 \<le> r \<and> r \<le> 1)"
proof -
  have "sum_list (map unat ((replicate 676 (0::32 word))[27 := 3])) = 3"
    by (simp add: map_update sum_list_update sum_list_replicate)
  then have i: "profile_inv \<lparr>Profile = (replicate 676 0)[27 := 3], Sum = 3\<rparr>"
    by (simp add: profile_inv_def)
  have "sum_list (map unat ((replicate 676 (0::32 word))[27 := 1, 5 := 1])) = 2"
    by (simp add: map_update sum_list_update sum_list_replicate)
  then have j: "profile_inv \<lparr>Profile = (replicate 676 0)[27 := 1, 5 := 1], Sum = 2\<rparr>"
    by (simp add: profile_inv_def)
  have p: "0 < Sum \<lparr>Profile = (replicate 676 0)[27 := 3], Sum = 3\<rparr>" by simp
  have q: "0 < Sum \<lparr>Profile = (replicate 676 0)[27 := 1, 5 := 1], Sum = 2\<rparr>" by simp
  from calculateSimilarity_bounded [OF i j p q] i j show ?thesis by blast
qed

lemma calculateSimilarity_zero:
  assumes "Profile X = replicate 676 0" and "Sum X = 0"
    and "Profile Y = replicate 676 0" and "Sum Y = 0"
  shows "calculateSimilarity X Y = NaN"
proof -
  have "minSum X Y 676 = 0" by (simp add: minSum_def assms(1,3))
  then have "unat (fold (sumMin_step X Y) [0..<676] 0) = 0"
    using fold_sumMin [of 676 X Y] by simp
  then have "fold (sumMin_step X Y) [0..<676] 0 = 0" by (simp add: unat_eq_0)
  then show ?thesis
    by (simp add: calculateSimilarity_def assms(2,4) float64_of_uint64_def)
qed

text \<open>
  Claim C9, as amended.  For profiles \<open>X\<close> and \<open>Y\<close> with \<open>Sum = 0\<close> and all counts zero,
  \<open>calculateSimilarity\<close> returns NaN: the division is the floating-point \<open>0 / 0\<close>, which
  does not panic, and the function has no case of its own for a denominator of zero.
\<close>

theorem calculateSimilarity_degenerate:
  assumes "Profile X = replicate 676 0" and "Sum X = 0"
    and "Profile Y = replicate 676 0" and "Sum Y = 0"
  shows "calculateSimilarity X Y = NaN"
  using assms by (rule calculateSimilarity_zero)

theorem calculateSimilarity_degenerate_witness:
  "Profile \<lparr>Profile = replicate 676 0, Sum = 0\<rparr> = replicate 676 0
   \<and> Sum \<lparr>Profile = replicate 676 0, Sum = 0\<rparr> = 0
   \<and> calculateSimilarity \<lparr>Profile = replicate 676 0, Sum = 0\<rparr>
        \<lparr>Profile = replicate 676 0, Sum = 0\<rparr> = NaN"
proof -
  define Z where "Z = \<lparr>Profile = replicate 676 (0::32 word), Sum = 0\<rparr>"
  have p: "Profile Z = replicate 676 0" and s: "Sum Z = 0" by (simp_all add: Z_def)
  from calculateSimilarity_degenerate [OF p s p s] p s show ?thesis
    unfolding Z_def by (intro conjI)
qed

text \<open>
  Claim C9 as stated fails: the value returned for two zero profiles is not one that a
  policy fixes.  It is NaN, which is no score between 0 and 1 and which Go's \<open>==\<close> does
  not even find equal to itself.
\<close>

theorem calculateSimilarity_degenerate_no_policy:
  "\<not> fle (Fin 0) (calculateSimilarity \<lparr>Profile = replicate 676 0, Sum = 0\<rparr>
                     \<lparr>Profile = replicate 676 0, Sum = 0\<rparr>)
   \<and> \<not> fle (calculateSimilarity \<lparr>Profile = replicate 676 0, Sum = 0\<rparr>
                \<lparr>Profile = replicate 676 0, Sum = 0\<rparr>) (Fin 1)
   \<and> \<not> feq (calculateSimilarity \<lparr>Profile = replicate 676 0, Sum = 0\<rparr>
                \<lparr>Profile = replicate 676 0, Sum = 0\<rparr>)
             (calculateSimilarity \<lparr>Profile = replicate 676 0, Sum = 0\<rparr>
                \<lparr>Profile = replicate 676 0, Sum = 0\<rparr>)"
proof -
  define Z where "Z = \<lparr>Profile = replicate 676 (0::32 word), Sum = 0\<rparr>"
  have p: "Profile Z = replicate 676 0" and s: "Sum Z = 0" by (simp_all add: Z_def)
  have n: "calculateSimilarity Z Z = NaN" using p s p s by (rule calculateSimilarity_zero)
  have "\<not> fle (Fin 0) (calculateSimilarity Z Z) \<and> \<not> fle (calculateSimilarity Z Z) (Fin 1)
        \<and> \<not> feq (calculateSimilarity Z Z) (calculateSimilarity Z Z)"
    unfolding n by (simp add: fle_def feq_def)
  then show ?thesis unfolding Z_def .
qed

section \<open>Properties of the batch builder\<close>

lemma sum_map_update:
  assumes "i < length xs"
  shows "sum_list (map f (xs[i := y])) + f (xs ! i) = sum_list (map f xs) + (f y :: nat)"
  using assms
proof (induction xs arbitrary: i)
  case Nil
  then show ?case by simp
next
  case (Cons x xs)
  then show ?case by (cases i) (simp_all add: add.assoc)
qed

lemma par_inv_init: "par_inv sequences maxGoroutines (par_init sequences)"
  by (simp add: par_inv_def par_init_def)

lemma par_inv_step:
  assumes "par_inv sequences maxGoroutines s"
    and "par_step sequences maxGoroutines s ev = Some (Inr s')"
  shows "par_inv sequences maxGoroutines s'"
proof (cases ev)
  case Spawn
  with assms show ?thesis
    by (auto simp: par_inv_def nth_append split: if_splits)
next
  case (Store i)
  with assms(2) obtain p where
    i: "i < length (goroutines s)" "goroutines s ! i = Started" "i < length (profiles s)"
    and p: "buildProfile (sequences ! i) = Inr p"
    and s': "s' = s\<lparr>profiles := (profiles s)[i := p], goroutines := (goroutines s)[i := Stored]\<rparr>"
    by (auto split: if_splits sum.splits)
  have "sum_list (map tokens ((goroutines s)[i := Stored])) = sum_list (map tokens (goroutines s))"
    using sum_map_update [OF i(1), of tokens Stored] i(2) by simp
  moreover have "sum_list (map pending ((goroutines s)[i := Stored])) = sum_list (map pending (goroutines s))"
    using sum_map_update [OF i(1), of pending Stored] i(2) by simp
  ultimately show ?thesis
    using assms(1) i p by (auto simp: par_inv_def s' nth_list_update)
next
  case (Release i)
  with assms(2) have
    i: "i < length (goroutines s)" "goroutines s ! i = Stored" "0 < semaphore s"
    and s': "s' = s\<lparr>goroutines := (goroutines s)[i := Released], semaphore := semaphore s - 1\<rparr>"
    by (auto split: if_splits)
  have "sum_list (map tokens ((goroutines s)[i := Released])) + 1 = sum_list (map tokens (goroutines s))"
    using sum_map_update [OF i(1), of tokens Released] i(2) by simp
  moreover have "sum_list (map pending ((goroutines s)[i := Released])) = sum_list (map pending (goroutines s))"
    using sum_map_update [OF i(1), of pending Released] i(2) by simp
  ultimately show ?thesis
    using assms(1) i by (auto simp: par_inv_def s' nth_list_update)
next
  case (Done i)
  with assms(2) have
    i: "i < length (goroutines s)" "goroutines s ! i = Released" "0 < wg s"
    and s': "s' = s\<lparr>goroutines := (goroutines s)[i := Finished], wg := wg s - 1\<rparr>"
    by (auto split: if_splits)
  have "sum_list (map tokens ((goroutines s)[i := Finished])) = sum_list (map tokens (goroutines s))"
    using sum_map_update [OF i(1), of tokens Finished] i(2) by simp
  moreover have "sum_list (map pending ((goroutines s)[i := Finished])) + 1 = sum_list (map pending (goroutines s))"
    using sum_map_update [OF i(1), of pending Finished] i(2) by simp
  ultimately show ?thesis
    using assms(1) i by (auto simp: par_inv_def s' nth_list_update)
qed

lemma par_inv_exec:
  assumes "par_inv sequences maxGoroutines s"
    and "exec sequences maxGoroutines sched s = Some (Inr s')"
  shows "par_inv sequences maxGoroutines s'"
  using assms
proof (induction sched arbitrary: s)
  case Nil
  then show ?case by simp
next
  case (Cons ev sched)
  from Cons.prems(2) obtain s1 where
    s1: "par_step sequences maxGoroutines s ev = Some (Inr s1)"
      "exec sequences maxGoroutines sched s1 = Some (Inr s')"
    by (auto split: option.splits sum.splits)
  from par_inv_step [OF Cons.prems(1) s1(1)] s1(2) show ?case by (rule Cons.IH)
qed

lemma buildProfile_Inl:
  assumes "buildProfile sequence = Inl e"
  shows "e = IndexOutOfRange"
proof -
  have "buildProfile_loop sequence i profile sum0 = Inl e \<Longrightarrow> e = IndexOutOfRange"
    for i profile sum0
  proof (induction sequence i profile sum0 rule: buildProfile_loop.induct)
    case (1 sequence i profile sum0)
    from "1.prems" show ?case
      by (subst (asm) buildProfile_loop.simps)
         (auto simp: Let_def split: if_splits intro: "1.IH")
  qed
  then show ?thesis using assms by (simp add: buildProfile_def)
qed

lemma par_step_panic:
  assumes "par_inv sequences maxGoroutines s"
    and "par_step sequences maxGoroutines s ev = Some (Inl e)"
  shows "\<exists>i<length sequences. buildProfile (sequences ! i) = Inl e"
proof (cases ev)
  case Spawn
  with assms(2) show ?thesis by (simp split: if_splits)
next
  case (Store i)
  with assms show ?thesis
    by (auto simp: par_inv_def split: if_splits sum.splits)
next
  case (Release i)
  with assms(2) show ?thesis by (simp split: if_splits)
next
  case (Done i)
  with assms(2) have i: "i < length (goroutines s)" "goroutines s ! i = Released" "wg s = 0"
    by (auto split: if_splits)
  have "pending (goroutines s ! i) \<in> set (map pending (goroutines s))"
    using i(1) by (metis length_map nth_map nth_mem)
  then have "pending (goroutines s ! i) \<le> sum_list (map pending (goroutines s))"
    by (auto intro: member_le_sum_list)
  moreover have "sum_list (map pending (goroutines s)) = 0"
    using assms(1) i(3) by (simp add: par_inv_def)
  ultimately have False using i(2) by simp
  then show ?thesis ..
qed

lemma exec_panic:
  assumes "par_inv sequences maxGoroutines s"
    and "exec sequences maxGoroutines sched s = Some (Inl e)"
  shows "\<exists>i<length sequences. buildProfile (sequences ! i) = Inl e"
  using assms
proof (induction sched arbitrary: s)
  case Nil
  then show ?case by simp
next
  case (Cons ev sched)
  show ?case
  proof (cases "par_step sequences maxGoroutines s ev")
    case None
    with Cons.prems(2) show ?thesis by simp
  next
    case (Some r)
    show ?thesis
    proof (cases r)
      case (Inl e')
      with Some Cons.prems(2) have "par_step sequences maxGoroutines s ev = Some (Inl e)" by simp
      with Cons.prems(1) show ?thesis by (rule par_step_panic)
    next
      case (Inr s1)
      with Some Cons.prems(2) have "exec sequences maxGoroutines sched s1 = Some (Inl e)" by simp
      moreover have "par_inv sequences maxGoroutines s1"
        using Cons.prems(1) Some Inr by (auto intro: par_inv_step)
      ultimately show ?thesis by (rule Cons.IH [rotated])
    qed
  qed
qed

lemma buildProfilesSeq_nth:
  assumes "length ps = length sequences"
    and "\<forall>i<length sequences. buildProfile (sequences ! i) = Inr (ps ! i)"
  shows "buildProfilesSeq sequences = Inr ps"
  using assms
proof (induction sequences arbitrary: ps)
  case Nil
  then show ?case by simp
next
  case (Cons a sequences)
  then obtain p ps' where ps: "ps = p # ps'" by (cases ps) auto
  have "buildProfile a = Inr p" using Cons.prems(2) ps by auto
  moreover have "buildProfilesSeq sequences = Inr ps'"
    using Cons.prems ps by (intro Cons.IH) auto
  ultimately show ?case by (simp add: ps)
qed

lemma buildProfilesSeq_Inr:
  assumes "buildProfilesSeq sequences = Inr ps"
  shows "length ps = length sequences
         \<and> (\<forall>i<length sequences. buildProfile (sequences ! i) = Inr (ps ! i))"
  using assms
proof (induction sequences arbitrary: ps)
  case Nil
  then show ?case by simp
next
  case (Cons a sequences)
  then show ?case
    by (auto split: sum.splits simp: nth_Cons split: nat.splits)
qed

lemma pending_all_finished:
  assumes "sum_list (map pending gs) = 0" and "i < length gs"
  shows "gs ! i = Finished"
proof -
  have "pending (gs ! i) = 0" using assms by (simp add: sum_list_eq_0_iff)
  then show ?thesis by (cases "gs ! i") simp_all
qed

lemma par_inv_return:
  assumes "par_inv sequences maxGoroutines s" and "can_return sequences s"
  shows "buildProfilesSeq sequences = Inr (profiles s)"
proof (rule buildProfilesSeq_nth)
  show "length (profiles s) = length sequences" using assms(1) by (simp add: par_inv_def)
  show "\<forall>i<length sequences. buildProfile (sequences ! i) = Inr (profiles s ! i)"
  proof (intro allI impI)
    fix i assume i: "i < length sequences"
    then have "goroutines s ! i = Finished"
      using assms by (intro pending_all_finished) (simp_all add: par_inv_def can_return_def)
    then show "buildProfile (sequences ! i) = Inr (profiles s ! i)"
      using assms i by (simp add: par_inv_def can_return_def)
  qed
qed

lemma par_progress:
  assumes "par_inv sequences maxGoroutines s" and "1 \<le> maxGoroutines"
    and "\<not> can_return sequences s"
  shows "\<exists>ev. par_step sequences maxGoroutines s ev \<noteq> None"
proof (cases "\<forall>i<length (goroutines s). goroutines s ! i = Finished")
  case True
  then have "\<forall>g\<in>set (goroutines s). g = Finished" by (simp add: all_set_conv_all_nth)
  then have z: "sum_list (map tokens (goroutines s)) = 0" "sum_list (map pending (goroutines s)) = 0"
    by (auto simp: sum_list_eq_0_iff)
  then have "length (goroutines s) < length sequences"
    using assms(1,3) by (auto simp: par_inv_def can_return_def)
  then have "par_step sequences maxGoroutines s Spawn \<noteq> None"
    using assms(1,2) z by (simp add: par_inv_def)
  then show ?thesis by blast
next
  case False
  then obtain i where i: "i < length (goroutines s)" "goroutines s ! i \<noteq> Finished" by blast
  have tok: "tokens (goroutines s ! i) \<le> semaphore s"
  proof -
    have "tokens (goroutines s ! i) \<in> set (map tokens (goroutines s))"
      using i(1) by (metis length_map nth_map nth_mem)
    then have "tokens (goroutines s ! i) \<le> sum_list (map tokens (goroutines s))"
      by (auto intro: member_le_sum_list)
    then show ?thesis using assms(1) by (simp add: par_inv_def)
  qed
  show ?thesis
  proof (cases "goroutines s ! i")
    case Started
    then have "par_step sequences maxGoroutines s (Store i) \<noteq> None"
      using i(1) by (simp split: sum.splits)
    then show ?thesis by blast
  next
    case Stored
    then have "par_step sequences maxGoroutines s (Release i) \<noteq> None"
      using i(1) tok by simp
    then show ?thesis by blast
  next
    case Released
    then have "par_step sequences maxGoroutines s (Done i) \<noteq> None"
      using i(1) by simp
    then show ?thesis by blast
  next
    case Finished
    with i(2) show ?thesis by simp
  qed
qed

lemma par_measure_step:
  assumes "par_step sequences maxGoroutines s ev = Some (Inr s')"
  shows "par_measure sequences s' + 1 = par_measure sequences s"
proof (cases ev)
  case Spawn
  with assms show ?thesis by (auto simp: par_measure_def split: if_splits)
next
  case (Store i)
  with assms obtain p where
    i: "i < length (goroutines s)" "goroutines s ! i = Started"
    and s': "s' = s\<lparr>profiles := (profiles s)[i := p], goroutines := (goroutines s)[i := Stored]\<rparr>"
    by (auto split: if_splits sum.splits)
  show ?thesis
    using sum_map_update [OF i(1), of steps_left Stored] i(2) by (simp add: par_measure_def s')
next
  case (Release i)
  with assms have
    i: "i < length (goroutines s)" "goroutines s ! i = Stored"
    and s': "s' = s\<lparr>goroutines := (goroutines s)[i := Released], semaphore := semaphore s - 1\<rparr>"
    by (auto split: if_splits)
  show ?thesis
    using sum_map_update [OF i(1), of steps_left Released] i(2) by (simp add: par_measure_def s')
next
  case (Done i)
  with assms have
    i: "i < length (goroutines s)" "goroutines s ! i = Released"
    and s': "s' = s\<lparr>goroutines := (goroutines s)[i := Finished], wg := wg s - 1\<rparr>"
    by (auto split: if_splits)
  show ?thesis
    using sum_map_update [OF i(1), of steps_left Finished] i(2) by (simp add: par_measure_def s')
qed

lemma par_measure_exec:
  assumes "exec sequences maxGoroutines sched s = Some (Inr s')"
  shows "par_measure sequences s' + length sched = par_measure sequences s"
  using assms
proof (induction sched arbitrary: s)
  case Nil
  then show ?case by simp
next
  case (Cons ev sched)
  from Cons.prems obtain s1 where
    s1: "par_step sequences maxGoroutines s ev = Some (Inr s1)"
      "exec sequences maxGoroutines sched s1 = Some (Inr s')"
    by (auto split: option.splits sum.splits)
  from Cons.IH [OF s1(2)] par_measure_step [OF s1(1)] show ?case by simp
qed

lemma exec_append:
  "exec sequences maxGoroutines (xs @ ys) s =
     (case exec sequences maxGoroutines xs s of
        None \<Rightarrow> None
      | Some (Inl e) \<Rightarrow> Some (Inl e)
      | Some (Inr s') \<Rightarrow> exec sequences maxGoroutines ys s')"
  by (induction xs arbitrary: s) (auto split: option.splits sum.splits)

lemma buildProfilesSeq_snoc:
  "buildProfilesSeq (xs @ [x]) =
     (case buildProfilesSeq xs of
        Inl e \<Rightarrow> Inl e
      | Inr ps \<Rightarrow> (case buildProfile x of Inl e \<Rightarrow> Inl e | Inr p \<Rightarrow> Inr (ps @ [p])))"
  by (induction xs) (auto split: sum.splits dest: buildProfile_Inl)


lemma exec_round:
  assumes "k < length sequences" and "length ps = k" and "1 \<le> maxGoroutines"
  shows "exec sequences maxGoroutines [Spawn, Store k, Release k, Done k]
           (finished_state (length sequences) k ps) =
         (case buildProfile (sequences ! k) of
            Inl e \<Rightarrow> Some (Inl e)
          | Inr p \<Rightarrow> Some (Inr (finished_state (length sequences) (Suc k) (ps @ [p]))))"
proof (cases "buildProfile (sequences ! k)")
  case (Inl e)
  then show ?thesis using assms by (simp add: finished_state_def nth_append)
next
  case (Inr p)
  have "length sequences - k = Suc (length sequences - Suc k)" using assms(1) by simp
  then have u: "(ps @ replicate (length sequences - k) z)[k := p]
             = ps @ p # replicate (length sequences - Suc k) z" for z :: ProteinProfile
    using assms(2) by (simp add: list_update_append)
  have g: "(replicate k Finished @ [x])[k := y] = replicate k Finished @ [y]" for x y
    by (simp add: list_update_append)
  show ?thesis
    using Inr assms by (simp add: finished_state_def nth_append u g replicate_append_same)
qed

lemma in_order_Suc: "in_order (Suc k) = in_order k @ [Spawn, Store k, Release k, Done k]"
  by (simp add: in_order_def)

lemma exec_in_order:
  assumes "k \<le> length sequences" and "1 \<le> maxGoroutines"
  shows "exec sequences maxGoroutines (in_order k) (par_init sequences) =
         (case buildProfilesSeq (take k sequences) of
            Inl e \<Rightarrow> Some (Inl e)
          | Inr ps \<Rightarrow> Some (Inr (finished_state (length sequences) k ps)))"
  using assms(1)
proof (induction k)
  case 0
  show ?case by (simp add: in_order_def par_init_def finished_state_def)
next
  case (Suc k)
  then have k: "k < length sequences" by simp
  have t: "take (Suc k) sequences = take k sequences @ [sequences ! k]"
    using k by (simp add: take_Suc_conv_app_nth)
  show ?case
  proof (cases "buildProfilesSeq (take k sequences)")
    case (Inl e)
    with Suc.IH k show ?thesis
      by (simp add: in_order_Suc exec_append t buildProfilesSeq_snoc)
  next
    case (Inr ps)
    then have "length ps = k" using buildProfilesSeq_Inr [OF Inr] k by simp
    with Suc.IH k Inr show ?thesis
      by (simp add: in_order_Suc exec_append t buildProfilesSeq_snoc
          exec_round [OF k _ assms(2)] del: exec.simps split: sum.splits)
  qed
qed

lemma buildProfilesParallel_eq:
  assumes "1 \<le> maxGoroutines"
  shows "buildProfilesParallel sequences maxGoroutines startIndex = buildProfilesSeq sequences"
proof -
  have n: "1 \<le> nat maxGoroutines" using assms by simp
  show ?thesis
    using assms exec_in_order [OF le_refl n, of sequences]
    by (simp add: buildProfilesParallel_def can_return_def finished_state_def split: sum.splits)
qed

lemma buildProfilesSeq_Inl:
  assumes "buildProfilesSeq sequences = Inl e"
  shows "e = IndexOutOfRange"
  using assms
  by (induction sequences) (auto split: sum.splits dest: buildProfile_Inl)

lemma exec_panic_seq:
  assumes "exec sequences maxGoroutines sched (par_init sequences) = Some (Inl e)"
  shows "buildProfilesSeq sequences = Inl e"
proof -
  from exec_panic [OF par_inv_init assms] obtain i where
    i: "i < length sequences" "buildProfile (sequences ! i) = Inl e" by blast
  then have e: "e = IndexOutOfRange" by (auto dest: buildProfile_Inl)
  show ?thesis
  proof (cases "buildProfilesSeq sequences")
    case (Inl e')
    then show ?thesis using e by (auto dest: buildProfilesSeq_Inl)
  next
    case (Inr ps)
    from buildProfilesSeq_Inr [OF Inr] i show ?thesis by auto
  qed
qed

text \<open>
  Claim C3.  For a concurrency limit of at least 1 and any start index,
  \<open>buildProfilesParallel\<close> gives what the profiler gives when it is applied to each
  input in turn: exactly one profile per input, in the order of the inputs, or the panic of
  the profiler.  This holds for every interleaving of the goroutines: a run takes at most
  four steps per input, a run that ends in the return of the main goroutine returns the
  sequential result, a run that panics panics as the sequential run does, and in a state
  where the main goroutine cannot return yet some goroutine can take a step.
\<close>

theorem buildProfilesParallel_sequential:
  assumes "1 \<le> maxGoroutines"
  shows "buildProfilesParallel sequences maxGoroutines startIndex = buildProfilesSeq sequences
    \<and> (\<forall>ps. buildProfilesSeq sequences = Inr ps \<longrightarrow>
          length ps = length sequences
          \<and> (\<forall>i<length sequences. buildProfile (sequences ! i) = Inr (ps ! i)))
    \<and> (\<forall>sched s.
          exec sequences (nat maxGoroutines) sched (par_init sequences) = Some (Inr s) \<longrightarrow>
            length sched \<le> 4 * length sequences
            \<and> (can_return sequences s \<longrightarrow> buildProfilesSeq sequences = Inr (profiles s))
            \<and> (\<not> can_return sequences s \<longrightarrow>
                  (\<exists>ev. par_step sequences (nat maxGoroutines) s ev \<noteq> None)))
    \<and> (\<forall>sched e.
          exec sequences (nat maxGoroutines) sched (par_init sequences) = Some (Inl e) \<longrightarrow>
            buildProfilesSeq sequences = Inl e)"
proof (intro conjI allI impI)
  show "buildProfilesParallel sequences maxGoroutines startIndex = buildProfilesSeq sequences"
    using assms by (rule buildProfilesParallel_eq)
next
  fix ps assume "buildProfilesSeq sequences = Inr ps"
  then show "length ps = length sequences"
    and "\<And>i. i < length sequences \<Longrightarrow> buildProfile (sequences ! i) = Inr (ps ! i)"
    by (simp_all add: buildProfilesSeq_Inr)
next
  fix sched s
  assume run: "exec sequences (nat maxGoroutines) sched (par_init sequences) = Some (Inr s)"
  have inv: "par_inv sequences (nat maxGoroutines) s"
    using par_inv_init run by (rule par_inv_exec)
  show "length sched \<le> 4 * length sequences"
    using par_measure_exec [OF run] by (simp add: par_measure_def par_init_def)
  show "buildProfilesSeq sequences = Inr (profiles s)" if "can_return sequences s"
    using inv that by (rule par_inv_return)
  show "\<exists>ev. par_step sequences (nat maxGoroutines) s ev \<noteq> None" if "\<not> can_return sequences s"
    using inv _ that by (rule par_progress) (use assms in simp)
next
  fix sched e
  assume "exec sequences (nat maxGoroutines) sched (par_init sequences) = Some (Inl e)"
  then show "buildProfilesSeq sequences = Inl e" by (rule exec_panic_seq)
qed

lemma buildProfile_AA:
  "buildProfile ''AA'' = Inr \<lparr>Profile = (replicate 676 0)[0 := 1], Sum = 1\<rparr>"
  by (simp add: buildProfile_def buildProfile_loop.simps bigramIndex_def)

lemma buildProfile_AB:
  "buildProfile ''AB'' = Inr \<lparr>Profile = (replicate 676 0)[1 := 1], Sum = 1\<rparr>"
  by (simp add: buildProfile_def buildProfile_loop.simps bigramIndex_def)

theorem buildProfilesParallel_sequential_witness:
  "(1::int) \<le> 2
   \<and> buildProfilesParallel [''AA'', ''AB''] 2 7 = buildProfilesSeq [''AA'', ''AB'']
   \<and> (\<exists>s. exec [''AA'', ''AB''] (nat 2)
              [Spawn, Spawn, Store 1, Release 1, Store 0, Done 1, Release 0, Done 0]
              (par_init [''AA'', ''AB'']) = Some (Inr s)
          \<and> can_return [''AA'', ''AB''] s
          \<and> buildProfilesSeq [''AA'', ''AB''] = Inr (profiles s))"
proof -
  have h: "(1::int) \<le> 2" by simp
  note t = buildProfilesParallel_sequential [OF h, of "[''AA'', ''AB'']" 7]
  define s where "s = \<lparr>profiles = [\<lparr>Profile = (replicate 676 0)[0 := 1], Sum = 1\<rparr>,
      \<lparr>Profile = (replicate 676 0)[1 := 1], Sum = 1\<rparr>],
      goroutines = [Finished, Finished], semaphore = 0, wg = 0\<rparr>"
  have run: "exec [''AA'', ''AB''] (nat 2)
              [Spawn, Spawn, Store 1, Release 1, Store 0, Done 1, Release 0, Done 0]
              (par_init [''AA'', ''AB'']) = Some (Inr s)"
    by (simp add: par_init_def buildProfile_AA buildProfile_AB s_def)
  have ret: "can_return [''AA'', ''AB''] s" by (simp add: can_return_def s_def)
  from t have "buildProfilesSeq [''AA'', ''AB''] = Inr (profiles s)"
    using run ret by blast
  with t h run ret show ?thesis by blast
qed

section \<open>Properties of the ingestion driver\<close>

lemma buildProfilesParallel_closed:
  "buildProfilesParallel sequences maxGoroutines startIndex =
     (if maxGoroutines < 0 then Inl NegativeChanSize
      else if sequences = [] then Inr []
      else if maxGoroutines = 0 then Inl Deadlock
      else buildProfilesSeq sequences)"
proof -
  consider "maxGoroutines < 0" | "maxGoroutines = 0" "sequences = []"
    | "maxGoroutines = 0" "sequences \<noteq> []" | "1 \<le> maxGoroutines"
    by fastforce
  then show ?thesis
  proof cases
    case 1
    then show ?thesis by (simp add: buildProfilesParallel_def)
  next
    case 2
    then show ?thesis
      by (simp add: buildProfilesParallel_def in_order_def par_init_def can_return_def)
  next
    case 3
    then obtain n where n: "length sequences = Suc n" by (cases sequences) auto
    show ?thesis
      using 3 by (simp add: buildProfilesParallel_def n in_order_Suc exec_append
          in_order_def par_init_def upt_rec [of 0])
  next
    case 4
    then show ?thesis
      using buildProfilesParallel_eq [OF 4, of sequences startIndex]
      by (cases sequences) auto
  qed
qed

lemma build_chunk_closed:
  "build_chunk maxGoroutines sequences =
     (if sequences = [] then Inr []
      else if maxGoroutines < 0 then Inl NegativeChanSize
      else if maxGoroutines = 0 then Inl Deadlock
      else buildProfilesSeq sequences)"
  by (simp add: build_chunk_def buildProfilesParallel_closed)

lemma buildProfilesSeq_append:
  "buildProfilesSeq (xs @ ys) =
     (case buildProfilesSeq xs of
        Inl e \<Rightarrow> Inl e
      | Inr ps \<Rightarrow> (case buildProfilesSeq ys of Inl e \<Rightarrow> Inl e | Inr qs \<Rightarrow> Inr (ps @ qs)))"
  by (induction xs) (auto split: sum.splits)

lemma build_chunk_append:
  "build_chunk maxGoroutines (xs @ ys) =
     (case build_chunk maxGoroutines xs of
        Inl e \<Rightarrow> Inl e
      | Inr ps \<Rightarrow> (case build_chunk maxGoroutines ys of Inl e \<Rightarrow> Inl e | Inr qs \<Rightarrow> Inr (ps @ qs)))"
  by (auto simp: build_chunk_closed buildProfilesSeq_append split: sum.splits)

lemma buildProfilesParallel_build_chunk:
  "sequences \<noteq> [] \<Longrightarrow>
     buildProfilesParallel sequences maxGoroutines startIndex = build_chunk maxGoroutines sequences"
  by (simp add: build_chunk_def buildProfilesParallel_closed)

lemma scan_end_table:
  assumes "length (currentChunkNames st) = length (currentChunkSequences st)"
  shows "scan_end maxGoroutines err st =
     table_of maxGoroutines err st (collected (currentName st) (currentSequence st) [])"
proof (cases "currentName st = []")
  case True
  then show ?thesis using assms
    by (cases "currentChunkSequences st = []")
       (auto simp: scan_end_def table_of_def buildProfilesParallel_build_chunk
          split: sum.splits, simp_all add: build_chunk_def)
next
  case False
  then show ?thesis
    by (cases "build_chunk maxGoroutines (currentChunkSequences st @ [currentSequence st])")
       (simp_all add: scan_end_def table_of_def buildProfilesParallel_build_chunk Let_def)
qed

lemma table_of_flush:
  assumes "build_chunk maxGoroutines (currentChunkSequences st) = Inr ps"
  shows "table_of maxGoroutines err
           (st\<lparr>allNames := allNames st @ currentChunkNames st,
               allProfiles := allProfiles st @ ps,
               totalProcessed := n,
               currentChunkNames := [],
               currentChunkSequences := []\<rparr>) rs
         = table_of maxGoroutines err st rs"
  using assms
  by (cases "build_chunk maxGoroutines (map snd rs)")
     (simp_all add: table_of_def build_chunk_append)

lemma table_of_panic:
  assumes "build_chunk maxGoroutines (currentChunkSequences st) = Inl e"
  shows "table_of maxGoroutines err st rs = Inl e"
  using assms by (simp add: table_of_def build_chunk_append)

lemma scan_line_stored:
  "scan_line chunkSize maxGoroutines st0 line =
     (let st = stored st0 line in
      if chunkSize \<le> int (length (currentChunkSequences st)) then
        (case buildProfilesParallel (currentChunkSequences st) maxGoroutines
                (totalProcessed st) of
           Inl e \<Rightarrow> Inl e
         | Inr profiles' \<Rightarrow>
             Inr (st\<lparr>allNames := allNames st @ currentChunkNames st,
                     allProfiles := allProfiles st @ profiles',
                     totalProcessed :=
                       totalProcessed st + int (length (currentChunkSequences st)),
                     currentChunkNames := [],
                     currentChunkSequences := []\<rparr>))
      else Inr st)"
  by (simp add: scan_line_def stored_def Let_def)

lemma stored_lengths:
  assumes "length (currentChunkNames st) = length (currentChunkSequences st)"
  shows "length (currentChunkNames (stored st line)) = length (currentChunkSequences (stored st line))"
  using assms by (simp add: stored_def Let_def)

lemma stored_table:
  "table_of maxGoroutines err (stored st line)
      (collected (currentName (stored st line)) (currentSequence (stored st line)) lines)
   = table_of maxGoroutines err st (collected (currentName st) (currentSequence st) (line # lines))"
  by (simp add: stored_def Let_def table_of_def)

lemma scan_loop_table:
  assumes "1 \<le> chunkSize"
    and "length (currentChunkNames st) = length (currentChunkSequences st)"
  shows "(case scan_loop chunkSize maxGoroutines lines st of
            Inl e \<Rightarrow> Inl e
          | Inr st' \<Rightarrow> scan_end maxGoroutines err st')
         = table_of maxGoroutines err st (collected (currentName st) (currentSequence st) lines)"
  using assms(2)
proof (induction lines arbitrary: st)
  case Nil
  then show ?case by (simp add: scan_end_table)
next
  case (Cons line lines)
  define st2 where "st2 = stored st line"
  have len: "length (currentChunkNames st2) = length (currentChunkSequences st2)"
    unfolding st2_def using Cons.prems by (rule stored_lengths)
  note coll = stored_table [of maxGoroutines err st line lines, folded st2_def]
  note step = scan_line_stored [of chunkSize maxGoroutines st line, folded st2_def]
  show ?case
  proof (cases "chunkSize \<le> int (length (currentChunkSequences st2))")
    case False
    then show ?thesis using Cons.IH [OF len] by (simp add: step coll)
  next
    case True
    then have ne: "currentChunkSequences st2 \<noteq> []" using assms(1) by auto
    note b = buildProfilesParallel_build_chunk [OF ne, of maxGoroutines "totalProcessed st2"]
    show ?thesis
    proof (cases "build_chunk maxGoroutines (currentChunkSequences st2)")
      case (Inl e)
      then show ?thesis using True
        by (simp add: step b coll [symmetric] table_of_panic del: collected.simps)
    next
      case (Inr ps)
      define st3 where "st3 = st2\<lparr>allNames := allNames st2 @ currentChunkNames st2,
                     allProfiles := allProfiles st2 @ ps,
                     totalProcessed :=
                       totalProcessed st2 + int (length (currentChunkSequences st2)),
                     currentChunkNames := [],
                     currentChunkSequences := []\<rparr>"
      have s: "scan_line chunkSize maxGoroutines st line = Inr st3"
        using True Inr by (simp add: step b st3_def)
      have "length (currentChunkNames st3) = length (currentChunkSequences st3)"
        by (simp add: st3_def)
      from Cons.IH [OF this] have
        "(case scan_loop chunkSize maxGoroutines lines st3 of
            Inl e \<Rightarrow> Inl e
          | Inr st' \<Rightarrow> scan_end maxGoroutines err st')
         = table_of maxGoroutines err st3 (collected (currentName st2) (currentSequence st2) lines)"
        by (simp add: st3_def)
      also have "\<dots> = table_of maxGoroutines err st2 (collected (currentName st2) (currentSequence st2) lines)"
        unfolding st3_def using Inr by (rule table_of_flush)
      finally show ?thesis by (simp add: s coll)
    qed
  qed
qed

lemma processFileInChunks_table:
  assumes "1 \<le> chunkSize"
  shows "processFileInChunks (File lines err) chunkSize maxGoroutines =
           map_sum id (\<lambda>ps. (map fst (collected [] [] lines), ps, err))
             (build_chunk maxGoroutines (map snd (collected [] [] lines)))"
  using scan_loop_table [OF assms, where st = chunk_init and lines = lines and err = err
      and maxGoroutines = maxGoroutines]
  by (simp add: processFileInChunks_def table_of_def chunk_init_def)

lemma collected_named:
  assumes "nm \<noteq> []"
  shows "collected nm sq lines =
           (nm, sq @ concat (takeWhile (\<lambda>l. \<not> HasPrefix l ''>'') lines)) # records lines"
  using assms
proof (induction lines arbitrary: nm sq)
  case Nil
  then show ?case by simp
next
  case (Cons line lines)
  show ?case
  proof (cases "HasPrefix line ''>''")
    case True
    then have "line \<noteq> []" by (auto simp: HasPrefix_def)
    then show ?thesis using True Cons.prems by (simp add: Cons.IH)
  next
    case False
    then show ?thesis using Cons.prems by (simp add: Cons.IH)
  qed
qed

lemma collected_unnamed:
  "collected [] sq lines =
     (case records lines of
        [] \<Rightarrow> []
      | (n, s) # rs \<Rightarrow> (n, sq @ concat (takeWhile (\<lambda>l. \<not> HasPrefix l ''>'') lines) @ s) # rs)"
proof (induction lines arbitrary: sq)
  case Nil
  show ?case by simp
next
  case (Cons line lines)
  show ?case
  proof (cases "HasPrefix line ''>''")
    case True
    then have "line \<noteq> []" by (auto simp: HasPrefix_def)
    then show ?thesis using True by (simp add: collected_named)
  next
    case False
    then show ?thesis by (simp add: Cons.IH split: list.splits)
  qed
qed

lemma names_records: "map fst (records lines) = filter (\<lambda>l. HasPrefix l ''>'') lines"
  by (induction lines) simp_all

lemma names_collected:
  "map fst (collected [] [] lines) = filter (\<lambda>l. HasPrefix l ''>'') lines"
  unfolding names_records [symmetric]
  by (simp add: collected_unnamed split: list.splits prod.splits)

lemma collected_records:
  assumes "concat (takeWhile (\<lambda>l. \<not> HasPrefix l ''>'') lines) = []"
  shows "collected [] [] lines = records lines"
  by (simp add: collected_unnamed assms split: list.splits prod.splits)

lemma build_chunk_length:
  assumes "build_chunk maxGoroutines sequences = Inr ps"
  shows "length ps = length sequences"
  using assms buildProfilesSeq_Inr [of sequences ps]
  by (auto simp: build_chunk_closed split: if_splits)

text \<open>
  Claim C4.  For chunk sizes \<open>c1\<close> and \<open>c2\<close> of at least 1, \<open>processFileInChunks\<close> gives the
  same result on the same input: the same names in the same order and the same profiles,
  or the same panic.  When it returns, no record is dropped: the names are the marker
  lines of the input, in order, each with a profile.
\<close>

theorem processFileInChunks_chunk_invariant:
  assumes "1 \<le> c1" and "1 \<le> c2"
  shows "processFileInChunks f c1 maxGoroutines = processFileInChunks f c2 maxGoroutines
    \<and> (\<forall>lines err names table err'.
          f = File lines err \<longrightarrow>
          processFileInChunks f c1 maxGoroutines = Inr (names, table, err') \<longrightarrow>
            names = filter (\<lambda>l. HasPrefix l ''>'') lines
            \<and> length table = length names \<and> err' = err)"
proof (cases f)
  case Missing
  then show ?thesis by (simp add: processFileInChunks_def)
next
  case (File lines err)
  have eq: "processFileInChunks f c1 maxGoroutines = processFileInChunks f c2 maxGoroutines"
    by (simp add: File processFileInChunks_table [OF assms(1)]
        processFileInChunks_table [OF assms(2)])
  have "names = filter (\<lambda>l. HasPrefix l ''>'') lines \<and> length table = length names \<and> err' = err"
    if "processFileInChunks f c1 maxGoroutines = Inr (names, table, err')" for names table err'
  proof -
    from that obtain ps where
      ps: "build_chunk maxGoroutines (map snd (collected [] [] lines)) = Inr ps"
      and r: "names = map fst (collected [] [] lines)" "table = ps" "err' = err"
      by (cases "build_chunk maxGoroutines (map snd (collected [] [] lines))")
         (auto simp: File processFileInChunks_table [OF assms(1)])
    from build_chunk_length [OF ps] r show ?thesis
      by (simp add: names_collected [symmetric])
  qed
  with eq File show ?thesis by blast
qed

theorem processFileInChunks_chunk_invariant_witness:
  "(1::int) \<le> 1 \<and> (1::int) \<le> 2
   \<and> processFileInChunks (File [''>x'', ''AB'', ''C'', ''>y'', ''>z'', ''AA''] None) 1 6
       = processFileInChunks (File [''>x'', ''AB'', ''C'', ''>y'', ''>z'', ''AA''] None) 2 6
   \<and> processFileInChunks (File [''>x'', ''AB'', ''C'', ''>y'', ''>z'', ''AA''] None) 2 6
       = Inr ([''>x'', ''>y'', ''>z''],
              [\<lparr>Profile = (replicate 676 0)[1 := 1, 28 := 1], Sum = 2\<rparr>,
               \<lparr>Profile = replicate 676 0, Sum = 0\<rparr>,
               \<lparr>Profile = (replicate 676 0)[0 := 1], Sum = 1\<rparr>], None)"
proof -
  have one: "processFileInChunks (File [''>x'', ''AB'', ''C'', ''>y'', ''>z'', ''AA''] None) 1 6
       = Inr ([''>x'', ''>y'', ''>z''],
              [\<lparr>Profile = (replicate 676 0)[1 := 1, 28 := 1], Sum = 2\<rparr>,
               \<lparr>Profile = replicate 676 0, Sum = 0\<rparr>,
               \<lparr>Profile = (replicate 676 0)[0 := 1], Sum = 1\<rparr>], None)"
    by code_simp
  have h1: "(1::int) \<le> 1" and h2: "(1::int) \<le> 2" by simp_all
  note eq = processFileInChunks_chunk_invariant [OF h1 h2, THEN conjunct1,
      of "File [''>x'', ''AB'', ''C'', ''>y'', ''>z'', ''AA''] None" 6]
  from eq one have two: "processFileInChunks (File [''>x'', ''AB'', ''C'', ''>y'', ''>z'', ''AA''] None) 2 6
       = Inr ([''>x'', ''>y'', ''>z''],
              [\<lparr>Profile = (replicate 676 0)[1 := 1, 28 := 1], Sum = 2\<rparr>,
               \<lparr>Profile = replicate 676 0, Sum = 0\<rparr>,
               \<lparr>Profile = (replicate 676 0)[0 := 1], Sum = 1\<rparr>], None)"
    by (rule trans [OF sym])
  from h1 h2 eq two show ?thesis by (intro conjI)
qed

text \<open>
  Claim C2 fails where text precedes the first marker line.  On the lines \<open>AB\<close>, \<open>>x\<close>,
  \<open>CD\<close> the only record is \<open>>x\<close> with the sequence \<open>CD\<close>, whose profile counts one bigram;
  the driver returns for \<open>>x\<close> the profile of \<open>ABCD\<close>, which counts three: the line \<open>AB\<close>
  was appended to \<open>currentSequence\<close> and is not cleared when the first marker arrives.
\<close>

theorem processFileInChunks_leading_text:
  "records [''AB'', ''>x'', ''CD''] = [(''>x'', ''CD'')]
   \<and> buildProfile ''CD'' = Inr \<lparr>Profile = (replicate 676 0)[55 := 1], Sum = 1\<rparr>
   \<and> processFileInChunks (File [''AB'', ''>x'', ''CD''] None) 10000 6
       = Inr ([''>x''], [\<lparr>Profile = (replicate 676 0)[1 := 1, 28 := 1, 55 := 1], Sum = 3\<rparr>], None)"
proof (intro conjI)
  show "records [''AB'', ''>x'', ''CD''] = [(''>x'', ''CD'')]"
    by (simp add: HasPrefix_def)
  show "buildProfile ''CD'' = Inr \<lparr>Profile = (replicate 676 0)[55 := 1], Sum = 1\<rparr>"
    by (simp add: buildProfile_def buildProfile_loop.simps bigramIndex_def)
  show "processFileInChunks (File [''AB'', ''>x'', ''CD''] None) 10000 6
       = Inr ([''>x''], [\<lparr>Profile = (replicate 676 0)[1 := 1, 28 := 1, 55 := 1], Sum = 3\<rparr>], None)"
    by code_simp
qed

text \<open>
  Where no text precedes the first marker line, the driver's table is that of the
  records of the input.
\<close>

lemma processFileInChunks_records:
  assumes "1 \<le> chunkSize"
    and "concat (takeWhile (\<lambda>l. \<not> HasPrefix l ''>'') lines) = []"
  shows "processFileInChunks (File lines err) chunkSize maxGoroutines =
           map_sum id (\<lambda>ps. (map fst (records lines), ps, err))
             (build_chunk maxGoroutines (map snd (records lines)))"
  by (simp add: processFileInChunks_table [OF assms(1)] collected_records [OF assms(2)])

lemma build_chunk_inv:
  assumes "build_chunk maxGoroutines sequences = Inr ps"
    and "list_all (\<lambda>sq. list_all isUpper sq \<and> length sq \<le> 2 ^ 32) sequences"
  shows "list_all profile_inv ps"
proof (cases "sequences = []")
  case True
  with assms(1) show ?thesis by (simp add: build_chunk_def)
next
  case False
  with assms(1) have "buildProfilesSeq sequences = Inr ps"
    by (simp add: build_chunk_closed split: if_splits)
  from buildProfilesSeq_Inr [OF this] have
    len: "length ps = length sequences"
    and nth: "\<And>i. i < length sequences \<Longrightarrow> buildProfile (sequences ! i) = Inr (ps ! i)"
    by simp_all
  have "profile_inv (ps ! i)" if "i < length ps" for i
  proof -
    have i: "i < length sequences" using that len by simp
    then have "list_all isUpper (sequences ! i)" "length (sequences ! i) \<le> 2 ^ 32"
      using assms(2) by (simp_all add: list_all_length)
    from buildProfile_inv [OF this] nth [OF i] show ?thesis by simp
  qed
  then show ?thesis by (simp add: list_all_length)
qed

lemma buildProfilesParallel_Inr:
  assumes "buildProfilesParallel sequences maxGoroutines startIndex = Inr ps"
  shows "build_chunk maxGoroutines sequences = Inr ps" and "buildProfilesSeq sequences = Inr ps"
  using assms by (auto simp: build_chunk_closed buildProfilesParallel_closed split: if_splits)

lemma build_chunk_Seq:
  assumes "build_chunk maxGoroutines sequences = Inr ps"
  shows "buildProfilesSeq sequences = Inr ps"
  using assms by (auto simp: build_chunk_closed split: if_splits)

lemma scan_loop_table_Inr:
  assumes "length (currentChunkNames st) = length (currentChunkSequences st)"
    and "(case scan_loop chunkSize maxGoroutines lines st of
            Inl e \<Rightarrow> Inl e
          | Inr st' \<Rightarrow> scan_end maxGoroutines err st') = Inr r"
  shows "table_of maxGoroutines err st (collected (currentName st) (currentSequence st) lines)
           = Inr r"
  using assms
proof (induction lines arbitrary: st)
  case Nil
  then show ?case by (simp add: scan_end_table)
next
  case (Cons line lines)
  define st2 where "st2 = stored st line"
  have len: "length (currentChunkNames st2) = length (currentChunkSequences st2)"
    unfolding st2_def using Cons.prems(1) by (rule stored_lengths)
  note coll = stored_table [of maxGoroutines err st line lines, folded st2_def]
  note step = scan_line_stored [of chunkSize maxGoroutines st line, folded st2_def]
  show ?case
  proof (cases "chunkSize \<le> int (length (currentChunkSequences st2))")
    case False
    then have "(case scan_loop chunkSize maxGoroutines lines st2 of
            Inl e \<Rightarrow> Inl e
          | Inr st' \<Rightarrow> scan_end maxGoroutines err st') = Inr r"
      using Cons.prems(2) by (simp add: step)
    from Cons.IH [OF len this] show ?thesis by (simp only: coll)
  next
    case True
    show ?thesis
    proof (cases "buildProfilesParallel (currentChunkSequences st2) maxGoroutines
                    (totalProcessed st2)")
      case (Inl e)
      then show ?thesis using True Cons.prems(2) by (simp add: step)
    next
      case (Inr ps)
      define st3 where "st3 = st2\<lparr>allNames := allNames st2 @ currentChunkNames st2,
                     allProfiles := allProfiles st2 @ ps,
                     totalProcessed :=
                       totalProcessed st2 + int (length (currentChunkSequences st2)),
                     currentChunkNames := [],
                     currentChunkSequences := []\<rparr>"
      have s: "scan_line chunkSize maxGoroutines st line = Inr st3"
        using True Inr by (simp add: step st3_def)
      have l3: "length (currentChunkNames st3) = length (currentChunkSequences st3)"
        by (simp add: st3_def)
      have "(case scan_loop chunkSize maxGoroutines lines st3 of
            Inl e \<Rightarrow> Inl e
          | Inr st' \<Rightarrow> scan_end maxGoroutines err st') = Inr r"
        using Cons.prems(2) by (simp add: s)
      from Cons.IH [OF l3 this] have
        "table_of maxGoroutines err st3 (collected (currentName st2) (currentSequence st2) lines)
           = Inr r"
        by (simp add: st3_def)
      moreover have "table_of maxGoroutines err st3
            (collected (currentName st2) (currentSequence st2) lines)
          = table_of maxGoroutines err st2
            (collected (currentName st2) (currentSequence st2) lines)"
        unfolding st3_def using buildProfilesParallel_Inr(1) [OF Inr] by (rule table_of_flush)
      ultimately show ?thesis by (simp only: coll)
    qed
  qed
qed

lemma processFileInChunks_Inr:
  assumes "processFileInChunks (File lines err) chunkSize maxGoroutines = Inr (names, table, err')"
  shows "names = map fst (collected [] [] lines)"
    and "buildProfilesSeq (map snd (collected [] [] lines)) = Inr table"
    and "err' = err"
proof -
  have l: "length (currentChunkNames chunk_init) = length (currentChunkSequences chunk_init)"
    by (simp add: chunk_init_def)
  have "(case scan_loop chunkSize maxGoroutines lines chunk_init of
            Inl e \<Rightarrow> Inl e
          | Inr st' \<Rightarrow> scan_end maxGoroutines err st') = Inr (names, table, err')"
    using assms by (simp add: processFileInChunks_def)
  from scan_loop_table_Inr [OF l this]
  have t: "map_sum id (\<lambda>ps. (map fst (collected [] [] lines), ps, err))
             (build_chunk maxGoroutines (map snd (collected [] [] lines)))
           = Inr (names, table, err')"
    by (simp add: table_of_def chunk_init_def)
  then obtain ps where ps: "build_chunk maxGoroutines (map snd (collected [] [] lines)) = Inr ps"
    by (cases "build_chunk maxGoroutines (map snd (collected [] [] lines))") simp_all
  with t show "names = map fst (collected [] [] lines)" and "err' = err" by simp_all
  from t ps have "ps = table" by simp
  with ps show "buildProfilesSeq (map snd (collected [] [] lines)) = Inr table"
    by (simp add: build_chunk_Seq)
qed

lemma buildProfilesSeq_inv:
  assumes "buildProfilesSeq sequences = Inr ps"
    and "list_all (\<lambda>sq. list_all isUpper sq \<and> length sq \<le> 2 ^ 32) sequences"
  shows "list_all profile_inv ps"
proof -
  from buildProfilesSeq_Inr [OF assms(1)] have
    len: "length ps = length sequences"
    and nth: "\<And>i. i < length sequences \<Longrightarrow> buildProfile (sequences ! i) = Inr (ps ! i)"
    by simp_all
  have "profile_inv (ps ! i)" if "i < length ps" for i
  proof -
    have i: "i < length sequences" using that len by simp
    then have "list_all isUpper (sequences ! i)" "length (sequences ! i) \<le> 2 ^ 32"
      using assms(2) by (simp_all add: list_all_length)
    from buildProfile_inv [OF this] nth [OF i] show ?thesis by simp
  qed
  then show ?thesis by (simp add: list_all_length)
qed

text \<open>
  Claim C6, as amended.  For a sequence of uppercase letters of length at most \<open>2 ^ 32\<close>
  the profile that \<open>buildProfile\<close> returns has \<open>Sum\<close> equal to the sum of its 676
  counts.  The pipeline stores the profiles as \<open>buildProfile\<close> returned them: for every
  concurrency limit and start index the profile at index \<open>i\<close> of the result of
  \<open>buildProfilesParallel\<close> is \<open>buildProfile\<close> of input \<open>i\<close>, and for every chunk size the
  profile at index \<open>i\<close> of the table that \<open>processFileInChunks\<close> returns is \<open>buildProfile\<close>
  of the sequence it collected at index \<open>i\<close>.  So every profile of the table satisfies the
  invariant when every collected sequence consists of at most \<open>2 ^ 32\<close> uppercase letters.
\<close>

theorem profile_invariant_pipeline:
  "(list_all isUpper s \<and> length s \<le> 2 ^ 32 \<longrightarrow> (\<exists>p. buildProfile s = Inr p \<and> profile_inv p))
   \<and> (buildProfilesParallel sequences limit startIndex = Inr ps \<longrightarrow>
        length ps = length sequences
        \<and> (\<forall>i<length sequences. buildProfile (sequences ! i) = Inr (ps ! i)))
   \<and> (processFileInChunks (File lines err) chunkSize maxGoroutines = Inr (names, table, err') \<longrightarrow>
        length table = length (collected [] [] lines)
        \<and> (\<forall>i<length table. buildProfile (snd (collected [] [] lines ! i)) = Inr (table ! i))
        \<and> (list_all (\<lambda>sq. list_all isUpper sq \<and> length sq \<le> 2 ^ 32)
              (map snd (collected [] [] lines))
            \<longrightarrow> list_all profile_inv table))"
proof (intro conjI impI)
  assume "list_all isUpper s \<and> length s \<le> 2 ^ 32"
  then show "\<exists>p. buildProfile s = Inr p \<and> profile_inv p"
    using buildProfile_inv [of s] by simp
next
  assume "buildProfilesParallel sequences limit startIndex = Inr ps"
  then have "buildProfilesSeq sequences = Inr ps" by (rule buildProfilesParallel_Inr(2))
  from buildProfilesSeq_Inr [OF this]
  show "length ps = length sequences"
    and "\<forall>i<length sequences. buildProfile (sequences ! i) = Inr (ps ! i)"
    by simp_all
next
  assume r: "processFileInChunks (File lines err) chunkSize maxGoroutines = Inr (names, table, err')"
  note seq = processFileInChunks_Inr(2) [OF r]
  from buildProfilesSeq_Inr [OF seq] have
    len: "length table = length (map snd (collected [] [] lines))"
    and nth: "\<forall>i<length (map snd (collected [] [] lines)).
                buildProfile (map snd (collected [] [] lines) ! i) = Inr (table ! i)"
    by simp_all
  show "length table = length (collected [] [] lines)" using len by simp
  show "\<forall>i<length table. buildProfile (snd (collected [] [] lines ! i)) = Inr (table ! i)"
    using nth len by simp
  show "list_all profile_inv table"
    if "list_all (\<lambda>sq. list_all isUpper sq \<and> length sq \<le> 2 ^ 32)
          (map snd (collected [] [] lines))"
    using seq that by (rule buildProfilesSeq_inv)
qed

theorem profile_invariant_pipeline_witness:
  "(list_all isUpper ''MAFS'' \<and> length ''MAFS'' \<le> (2::nat) ^ 32)
   \<and> (\<exists>p. buildProfile ''MAFS'' = Inr p \<and> profile_inv p)
   \<and> buildProfilesParallel [''AA'', ''AB''] 2 7
       = Inr [\<lparr>Profile = (replicate 676 0)[0 := 1], Sum = 1\<rparr>,
              \<lparr>Profile = (replicate 676 0)[1 := 1], Sum = 1\<rparr>]
   \<and> buildProfile ([''AA'', ''AB''] ! 1) = Inr \<lparr>Profile = (replicate 676 0)[1 := 1], Sum = 1\<rparr>
   \<and> list_all (\<lambda>sq. list_all isUpper sq \<and> length sq \<le> 2 ^ 32)
        (map snd (collected [] [] [''>x'', ''AB'', ''C'', ''>y'', ''AA'']))
   \<and> processFileInChunks (File [''>x'', ''AB'', ''C'', ''>y'', ''AA''] None) 0 6
       = Inr ([''>x'', ''>y''],
              [\<lparr>Profile = (replicate 676 0)[1 := 1, 28 := 1], Sum = 2\<rparr>,
               \<lparr>Profile = (replicate 676 0)[0 := 1], Sum = 1\<rparr>], None)
   \<and> buildProfile (snd (collected [] [] [''>x'', ''AB'', ''C'', ''>y'', ''AA''] ! 0))
       = Inr \<lparr>Profile = (replicate 676 0)[1 := 1, 28 := 1], Sum = 2\<rparr>
   \<and> list_all profile_inv
        [\<lparr>Profile = (replicate 676 0)[1 := 1, 28 := 1], Sum = 2\<rparr>,
         \<lparr>Profile = (replicate 676 0)[0 := 1], Sum = 1\<rparr>]"
proof -
  define A where "A = \<lparr>Profile = (replicate 676 (0::32 word))[0 := 1], Sum = 1\<rparr>"
  define B where "B = \<lparr>Profile = (replicate 676 (0::32 word))[1 := 1], Sum = 1\<rparr>"
  define C where "C = \<lparr>Profile = (replicate 676 (0::32 word))[1 := 1, 28 := 1], Sum = 2\<rparr>"
  define ls where "ls = [''>x'', ''AB'', ''C'', ''>y'', ''AA'']"
  have u: "list_all isUpper ''MAFS'' \<and> length ''MAFS'' \<le> (2::nat) ^ 32"
    by (simp add: isUpper_def)
  have b: "buildProfilesParallel [''AA'', ''AB''] 2 7 = Inr [A, B]"
    unfolding A_def B_def by code_simp
  have r: "list_all (\<lambda>sq. list_all isUpper sq \<and> length sq \<le> 2 ^ 32)
        (map snd (collected [] [] ls))"
    unfolding ls_def by (simp add: HasPrefix_def isUpper_def)
  have p: "processFileInChunks (File ls None) 0 6 = Inr ([''>x'', ''>y''], [C, A], None)"
    unfolding A_def C_def ls_def by code_simp
  note t = profile_invariant_pipeline [of "''MAFS''" "[''AA'', ''AB'']" 2 7 "[A, B]"
      ls None 0 6 "[''>x'', ''>y'']" "[C, A]" None]
  from t [THEN conjunct1, rule_format, OF u]
  have a: "\<exists>p. buildProfile ''MAFS'' = Inr p \<and> profile_inv p" .
  note t2 = t [THEN conjunct2, THEN conjunct1, rule_format, OF b]
  have "(1::nat) < length [''AA'', ''AB'']" by simp
  with t2 [THEN conjunct2] have b1: "buildProfile ([''AA'', ''AB''] ! 1) = Inr ([A, B] ! 1)"
    by blast
  then have b1': "buildProfile ([''AA'', ''AB''] ! 1) = Inr B" by (simp only: nth_Cons_Suc nth_Cons_0 One_nat_def)
  note t3 = t [THEN conjunct2, THEN conjunct2, rule_format, OF p]
  have "(0::nat) < length [C, A]" by simp
  with t3 [THEN conjunct2, THEN conjunct1]
  have c0: "buildProfile (snd (collected [] [] ls ! 0)) = Inr ([C, A] ! 0)" by blast
  then have c0': "buildProfile (snd (collected [] [] ls ! 0)) = Inr C" by (simp only: nth_Cons_0)
  from t3 [THEN conjunct2, THEN conjunct2] r have inv: "list_all profile_inv [C, A]" by (rule mp)
  from u a b b1' r p c0' inv show ?thesis
    unfolding A_def B_def C_def ls_def by blast
qed

section \<open>Properties of the priority queue\<close>

lemma length_Swap [simp]: "length (Swap h i j) = length h"
  by (simp add: Swap_def)

lemma nth_Swap:
  assumes "i < length h" and "j < length h"
  shows "Swap h i j ! k = (if k = j then h ! i else if k = i then h ! j else h ! k)"
  using assms by (simp add: Swap_def nth_list_update)

lemma mset_Swap:
  assumes "i < length h" and "j < length h"
  shows "mset (Swap h i j) = mset h"
  using assms by (simp add: Swap_def mset_swap)

lemma up_unfold:
  "up lt h j =
     (if parent j = j \<or> \<not> lt (h ! j) (h ! parent j) then h
      else up lt (Swap h (parent j) j) (parent j))"
  by (subst up.simps) (simp only: Let_def parent_def)

lemma down_unfold:
  "down lt h i n =
     (if n \<le> 2 * i + 1 then h
      else if \<not> lt (h ! child lt h i n) (h ! i) then h
      else down lt (Swap h i (child lt h i n)) (child lt h i n) n)"
  by (subst down.simps) (simp only: Let_def child_def)

lemma up_induct [case_names step]:
  assumes "\<And>h j. (parent j \<noteq> j \<Longrightarrow> lt (h ! j) (h ! parent j) \<Longrightarrow>
              P (Swap h (parent j) j) (parent j)) \<Longrightarrow> P h j"
  shows "P h j"
proof (induction j arbitrary: h rule: less_induct)
  case (less j)
  show ?case
  proof (rule assms)
    assume "parent j \<noteq> j"
    then have "parent j < j" by (simp add: parent_def)
    then show "P (Swap h (parent j) j) (parent j)" by (rule less.IH)
  qed
qed

lemma down_induct [case_names step]:
  assumes "\<And>h i. (\<not> n \<le> 2 * i + 1 \<Longrightarrow> lt (h ! child lt h i n) (h ! i) \<Longrightarrow>
              P (Swap h i (child lt h i n)) (child lt h i n)) \<Longrightarrow> P h i"
  shows "P h i"
proof (induction "n - i" arbitrary: h i rule: less_induct)
  case less
  show ?case
  proof (rule assms)
    assume "\<not> n \<le> 2 * i + 1"
    then have "n - child lt h i n < n - i" by (auto simp: child_def)
    then show "P (Swap h i (child lt h i n)) (child lt h i n)" by (rule less.hyps)
  qed
qed

lemma parent_less: "0 < j \<Longrightarrow> parent j < j"
  by (simp add: parent_def)

lemma parent_fix: "parent j = j \<longleftrightarrow> j = 0"
  by (auto simp: parent_def)

lemma child_bounds:
  assumes "\<not> n \<le> 2 * i + 1"
  shows "child lt h i n < n" and "i < child lt h i n" and "parent (child lt h i n) = i"
    and "child lt h i n = 2 * i + 1 \<or> child lt h i n = 2 * i + 2"
  using assms by (auto simp: child_def parent_def)

lemma parent_children: "0 < k \<Longrightarrow> parent k = i \<longleftrightarrow> k = 2 * i + 1 \<or> k = 2 * i + 2"
  by (auto simp: parent_def)

lemma length_up [simp]: "length (up lt h j) = length h"
  by (induction h j rule: up_induct [where lt = lt]) (subst up_unfold, simp)

lemma length_down [simp]: "length (down lt h i n) = length h"
  by (induction h i rule: down_induct [where lt = lt and n = n]) (subst down_unfold, simp)

lemma mset_up:
  assumes "j < length h"
  shows "mset (up lt h j) = mset h"
  using assms
proof (induction h j rule: up_induct [where lt = lt])
  case (step h j)
  have p: "parent j < length h" using step.prems parent_less [of j] by (cases "j = 0") (simp_all add: parent_def)
  show ?case
  proof (cases "parent j = j \<or> \<not> lt (h ! j) (h ! parent j)")
    case True
    then show ?thesis by (subst up_unfold) simp
  next
    case False
    then have "mset (up lt (Swap h (parent j) j) (parent j)) = mset (Swap h (parent j) j)"
      using p by (intro step.IH) simp_all
    then show ?thesis using False p step.prems by (subst up_unfold) (simp add: mset_Swap)
  qed
qed

lemma mset_down:
  assumes "n \<le> length h"
  shows "mset (down lt h i n) = mset h"
  using assms
proof (induction h i rule: down_induct [where lt = lt and n = n])
  case (step h i)
  show ?case
  proof (cases "n \<le> 2 * i + 1 \<or> \<not> lt (h ! child lt h i n) (h ! i)")
    case True
    then show ?thesis by (subst down_unfold) auto
  next
    case False
    then have c: "child lt h i n < n" "i < child lt h i n" by (simp_all add: child_bounds)
    have "mset (down lt (Swap h i (child lt h i n)) (child lt h i n) n) = mset (Swap h i (child lt h i n))"
      using False step.prems by (intro step.IH) simp_all
    then show ?thesis using False c step.prems by (subst down_unfold) (simp add: mset_Swap)
  qed
qed

lemma down_nth_ge:
  assumes "n \<le> length h" and "n \<le> k"
  shows "down lt h i n ! k = h ! k"
  using assms(1)
proof (induction h i rule: down_induct [where lt = lt and n = n])
  case (step h i)
  show ?case
  proof (cases "n \<le> 2 * i + 1 \<or> \<not> lt (h ! child lt h i n) (h ! i)")
    case True
    then show ?thesis by (subst down_unfold) auto
  next
    case False
    then have c: "child lt h i n < n" "i < child lt h i n" by (simp_all add: child_bounds)
    have "down lt (Swap h i (child lt h i n)) (child lt h i n) n ! k = Swap h i (child lt h i n) ! k"
      using False step.prems by (intro step.IH) simp_all
    then show ?thesis using False c step.prems assms(2) by (subst down_unfold) (simp add: nth_Swap)
  qed
qed

lemma up_cong:
  assumes "\<forall>x\<in>set h. \<forall>y\<in>set h. lt x y = lt' x y" and "j < length h"
  shows "up lt h j = up lt' h j"
  using assms
proof (induction h j rule: up_induct [where lt = lt])
  case (step h j)
  have p: "parent j < length h" using step.prems(2) by (simp add: parent_def)
  have e: "lt (h ! j) (h ! parent j) = lt' (h ! j) (h ! parent j)"
    using step.prems p by simp
  show ?case
  proof (cases "parent j = j \<or> \<not> lt (h ! j) (h ! parent j)")
    case True
    then show ?thesis using e by (subst up_unfold, subst (2) up_unfold) auto
  next
    case False
    have "set (Swap h (parent j) j) = set h"
      using mset_Swap [OF p step.prems(2)] by (metis set_mset_mset)
    then have "up lt (Swap h (parent j) j) (parent j) = up lt' (Swap h (parent j) j) (parent j)"
      using False p step.prems(1) by (intro step.IH) simp_all
    then show ?thesis using False e by (subst up_unfold, subst (2) up_unfold) auto
  qed
qed

lemma child_cong:
  assumes "\<forall>x\<in>set h. \<forall>y\<in>set h. lt x y = lt' x y" and "n \<le> length h"
  shows "child lt h i n = child lt' h i n"
  using assms by (auto simp: child_def)

lemma down_cong:
  assumes "\<forall>x\<in>set h. \<forall>y\<in>set h. lt x y = lt' x y" and "n \<le> length h"
  shows "down lt h i n = down lt' h i n"
  using assms
proof (induction h i rule: down_induct [where lt = lt and n = n])
  case (step h i)
  note ch = child_cong [OF step.prems, of i]
  show ?case
  proof (cases "n \<le> 2 * i + 1")
    case True
    then show ?thesis by (subst down_unfold, subst (2) down_unfold) simp
  next
    case False
    then have c: "child lt h i n < n" "i < child lt h i n" by (simp_all add: child_bounds)
    then have e: "lt (h ! child lt h i n) (h ! i) = lt' (h ! child lt h i n) (h ! i)"
      using step.prems by simp
    show ?thesis
    proof (cases "lt (h ! child lt h i n) (h ! i)")
      case False
      then show ?thesis using e ch by (subst down_unfold, subst (2) down_unfold) simp
    next
      case True
      have "set (Swap h i (child lt h i n)) = set h"
        using mset_Swap [of i h "child lt h i n"] c step.prems(2) by (metis less_le_trans less_trans set_mset_mset)
      then have "down lt (Swap h i (child lt h i n)) (child lt h i n) n
               = down lt' (Swap h i (child lt h i n)) (child lt h i n) n"
        using True \<open>\<not> n \<le> 2 * i + 1\<close> step.prems by (intro step.IH) simp_all
      then show ?thesis using True e ch \<open>\<not> n \<le> 2 * i + 1\<close>
        by (subst down_unfold, subst (2) down_unfold) simp
    qed
  qed
qed

lemma is_heapD: "is_heap K h n \<Longrightarrow> 0 < k \<Longrightarrow> k < n \<Longrightarrow> K (h ! k) \<le> K (h ! parent k)"
  by (simp add: is_heap_def)

lemma is_heap_root:
  assumes "is_heap K h n" and "k < n"
  shows "K (h ! k) \<le> K (h ! 0)"
  using assms(2)
proof (induction k rule: less_induct)
  case (less k)
  show ?case
  proof (cases "k = 0")
    case True
    then show ?thesis by simp
  next
    case False
    then have p: "parent k < k" by (simp add: parent_less)
    have "K (h ! k) \<le> K (h ! parent k)"
      using assms(1) False less.prems by (simp add: is_heapD)
    also have "\<dots> \<le> K (h ! 0)" using p less.prems by (intro less.IH) simp_all
    finally show ?thesis .
  qed
qed

lemma up_heap:
  assumes "j < n" and "n \<le> length h" and "heap_except_up K h n j"
  shows "is_heap K (up (kless K) h j) n"
  using assms
proof (induction h j rule: up_induct [where lt = "kless K"])
  case (step h j)
  have ex1: "K (h ! k) \<le> K (h ! parent k)" if "0 < k" "k < n" "k \<noteq> j" for k
    using step.prems(3) that by (simp add: heap_except_up_def)
  have ex2: "K (h ! k) \<le> K (h ! parent j)" if "0 < k" "k < n" "parent k = j" "0 < j" for k
    using step.prems(3) that by (simp add: heap_except_up_def)
  show ?case
  proof (cases "parent j = j \<or> \<not> kless K (h ! j) (h ! parent j)")
    case True
    then have "j = 0 \<or> K (h ! j) \<le> K (h ! parent j)" by (auto simp: parent_fix kless_def)
    then have "is_heap K h n"
      unfolding is_heap_def using ex1 by (metis not_gr_zero)
    then show ?thesis using True by (subst up_unfold) auto
  next
    case False
    then have j: "0 < j" "parent j < j" and lt: "K (h ! parent j) < K (h ! j)"
      by (auto simp: parent_fix parent_less kless_def)
    define i where "i = parent j"
    define h' where "h' = Swap h i j"
    have i: "i < j" "i < length h" "j < length h" using j step.prems by (simp_all add: i_def)
    have nth: "h' ! k = (if k = j then h ! i else if k = i then h ! j else h ! k)" for k
      unfolding h'_def using i by (simp add: nth_Swap)
    have "heap_except_up K h' n i"
      unfolding heap_except_up_def
    proof (intro conjI allI impI; (elim conjE)?)
      fix k assume k: "0 < k" "k < n" "k \<noteq> i"
      show "K (h' ! k) \<le> K (h' ! parent k)"
      proof (cases "k = j")
        case True
        then show ?thesis using lt i by (simp add: nth i_def)
      next
        case False
        have pk: "parent k < k" using k(1) by (simp add: parent_less)
        have base: "K (h ! k) \<le> K (h ! parent k)" using ex1 k False by simp
        consider "parent k = j" | "parent k = i" | "parent k \<noteq> j" "parent k \<noteq> i" by blast
        then show ?thesis
        proof cases
          case 1
          then have "K (h ! k) \<le> K (h ! parent j)" using ex2 k j by simp
          then show ?thesis using 1 False k i by (simp add: nth i_def)
        next
          case 2
          then have "K (h ! k) \<le> K (h ! j)" using base lt by (simp add: i_def)
          then show ?thesis using 2 False k i by (simp add: nth)
        next
          case 3
          then show ?thesis using base False k by (simp add: nth)
        qed
      qed
    next
      fix k assume k: "0 < k" "k < n" "parent k = i" "0 < i"
      have pi: "parent i < i" using k(4) by (simp add: parent_less)
      have ki: "k \<noteq> i" using k(1,3) parent_less [of k] by auto
      have top: "K (h ! i) \<le> K (h ! parent i)"
        using ex1 [of i] k(4) i step.prems by simp
      have "K (h ! k) \<le> K (h ! i)" if "k \<noteq> j"
        using ex1 [of k] k that by simp
      then have "K (h' ! k) \<le> K (h ! parent i)"
        using top ki by (auto simp: nth)
      moreover have "h' ! parent i = h ! parent i" using pi i by (simp add: nth)
      ultimately show "K (h' ! k) \<le> K (h' ! parent i)" by simp
    qed
    then have "is_heap K (up (kless K) h' i) n"
      unfolding h'_def i_def using False i step.prems
      by (intro step.IH) (simp_all add: i_def)
    then show ?thesis using False by (subst up_unfold) (simp add: h'_def i_def)
  qed
qed

lemma down_heap:
  assumes "n \<le> length h" and "heap_except_down K h n i"
  shows "is_heap K (down (kless K) h i n) n"
  using assms
proof (induction h i rule: down_induct [where lt = "kless K" and n = n])
  case (step h i)
  have ex1: "K (h ! k) \<le> K (h ! parent k)" if "0 < k" "k < n" "parent k \<noteq> i" for k
    using step.prems(2) that by (simp add: heap_except_down_def)
  have ex2: "K (h ! k) \<le> K (h ! parent i)" if "0 < k" "k < n" "parent k = i" "0 < i" for k
    using step.prems(2) that by (simp add: heap_except_down_def)
  show ?case
  proof (cases "n \<le> 2 * i + 1")
    case True
    have "is_heap K h n"
      unfolding is_heap_def
    proof (intro allI impI)
      fix k assume k: "0 < k \<and> k < n"
      then have "parent k \<noteq> i" using True by (auto simp: parent_children)
      then show "K (h ! k) \<le> K (h ! parent k)" using ex1 k by simp
    qed
    then show ?thesis using True by (subst down_unfold) simp
  next
    case False
    define j where "j = child (kless K) h i n"
    note c = child_bounds [OF False, of "kless K" h, folded j_def]
    have big: "K (h ! k) \<le> K (h ! j)" if "0 < k" "k < n" "parent k = i" for k
    proof -
      from that have "k = 2 * i + 1 \<or> k = 2 * i + 2" by (simp add: parent_children)
      then show ?thesis using that(2)
        by (auto simp: j_def child_def kless_def not_less)
    qed
    show ?thesis
    proof (cases "kless K (h ! j) (h ! i)")
      case False
      then have le: "K (h ! j) \<le> K (h ! i)" by (simp add: kless_def)
      have "is_heap K h n"
        unfolding is_heap_def
      proof (intro allI impI)
        fix k assume k: "0 < k \<and> k < n"
        show "K (h ! k) \<le> K (h ! parent k)"
        proof (cases "parent k = i")
          case True
          then show ?thesis using big [of k] k le by simp
        next
          case False
          then show ?thesis using ex1 k by simp
        qed
      qed
      then show ?thesis using False \<open>\<not> n \<le> 2 * i + 1\<close>
        by (subst down_unfold) (simp add: j_def)
    next
      case True
      then have lt: "K (h ! i) < K (h ! j)" by (simp add: kless_def)
      define h' where "h' = Swap h i j"
      have ij: "i < length h" "j < length h" using c step.prems(1) by simp_all
      have nth: "h' ! k = (if k = j then h ! i else if k = i then h ! j else h ! k)" for k
        unfolding h'_def using ij by (simp add: nth_Swap)
      have "heap_except_down K h' n j"
        unfolding heap_except_down_def
      proof (intro conjI allI impI; (elim conjE)?)
        fix k assume k: "0 < k" "k < n" "parent k \<noteq> j"
        have pk: "parent k < k" using k(1) by (simp add: parent_less)
        consider "k = j" | "k = i" | "k \<noteq> j" "k \<noteq> i" "parent k = i"
          | "k \<noteq> j" "k \<noteq> i" "parent k \<noteq> i" by blast
        then show "K (h' ! k) \<le> K (h' ! parent k)"
        proof cases
          case 1
          then show ?thesis using lt c by (simp add: nth)
        next
          case 2
          then have "0 < i" using k(1) by simp
          then have "K (h ! j) \<le> K (h ! parent i)" using ex2 [of j] c by simp
          moreover have "parent i \<noteq> i" "parent i \<noteq> j"
            using \<open>0 < i\<close> parent_less [of i] c(2) by simp_all
          ultimately show ?thesis using 2 c by (simp add: nth)
        next
          case 3
          then show ?thesis using big [of k] k c by (simp add: nth)
        next
          case 4
          then show ?thesis using ex1 [of k] k by (simp add: nth)
        qed
      next
        fix k assume k: "0 < k" "k < n" "parent k = j" "0 < j"
        have "k \<noteq> j" "k \<noteq> i" using k(1,3) parent_less [of k] c(2) by auto
        moreover have "K (h ! k) \<le> K (h ! j)" using ex1 [of k] k c(2) by simp
        ultimately show "K (h' ! k) \<le> K (h' ! parent j)" using c by (simp add: nth)
      qed
      then have "is_heap K (down (kless K) h' j n) n"
        unfolding h'_def j_def using True \<open>\<not> n \<le> 2 * i + 1\<close> step.prems(1)
        by (intro step.IH) (simp_all add: j_def)
      then show ?thesis using True \<open>\<not> n \<le> 2 * i + 1\<close>
        by (subst down_unfold) (simp add: h'_def j_def)
    qed
  qed
qed

lemma length_heap_Push [simp]: "length (heap_Push lt h x) = length h + 1"
  by (simp add: heap_Push_def)

lemma mset_heap_Push: "mset (heap_Push lt h x) = add_mset x (mset h)"
  by (simp add: heap_Push_def mset_up)

lemma heap_Push_cong:
  assumes "\<forall>a\<in>insert x (set h). \<forall>b\<in>insert x (set h). lt a b = lt' a b"
  shows "heap_Push lt h x = heap_Push lt' h x"
  unfolding heap_Push_def Let_def
  by (rule up_cong) (use assms in auto)

lemma heap_Push_heap:
  assumes "is_heap K h (length h)"
  shows "is_heap K (heap_Push (kless K) h x) (length h + 1)"
proof -
  have "heap_except_up K (h @ [x]) (length h + 1) (length h)"
    unfolding heap_except_up_def
  proof (intro conjI allI impI; (elim conjE)?)
    fix k assume k: "0 < k" "k < length h + 1" "k \<noteq> length h"
    then have "k < length h" "parent k < length h" using parent_less [of k] by simp_all
    then show "K ((h @ [x]) ! k) \<le> K ((h @ [x]) ! parent k)"
      using is_heapD [OF assms k(1)] by (simp add: nth_append)
  next
    fix k assume "0 < k" "k < length h + 1" "parent k = length h" "0 < length h"
    then have False using parent_less [of k] by simp
    then show "K ((h @ [x]) ! k) \<le> K ((h @ [x]) ! parent (length h))" ..
  qed
  then show ?thesis
    unfolding heap_Push_def Let_def by (intro up_heap) simp_all
qed

lemma heap_Pop_Inr:
  assumes "h \<noteq> []"
  shows "\<exists>x h'. heap_Pop lt h = Inr (x, h') \<and> length h' = length h - 1 \<and> mset h = add_mset x (mset h')"
proof -
  define n where "n = length h - 1"
  define h2 where "h2 = down lt (Swap h 0 n) 0 n"
  have n: "n < length h" using assms by (simp add: n_def)
  have len: "length h2 = length h" by (simp add: h2_def)
  then have ne: "h2 \<noteq> []" using assms by auto
  have "mset h2 = mset h" unfolding h2_def using n assms by (simp add: mset_down mset_Swap)
  moreover have "mset h2 = add_mset (last h2) (mset (butlast h2))"
    using ne by (metis append_butlast_last_id mset.simps(2) mset_append union_mset_add_mset_right add.right_neutral mset.simps(1))
  ultimately have "mset h = add_mset (last h2) (mset (butlast h2))" by simp
  moreover have "heap_Pop lt h = Inr (last h2, butlast h2)"
    using assms by (simp add: heap_Pop_def Let_def h2_def n_def)
  ultimately show ?thesis using len by simp
qed

lemma heap_Pop_length:
  assumes "heap_Pop lt h = Inr (x, h')"
  shows "length h' = length h - 1"
proof -
  from assms have "h \<noteq> []" by (auto simp: heap_Pop_def)
  from heap_Pop_Inr [OF this, of lt] assms show ?thesis by auto
qed

lemma heap_Pop_cong:
  assumes "\<forall>a\<in>set h. \<forall>b\<in>set h. lt a b = lt' a b"
  shows "heap_Pop lt h = heap_Pop lt' h"
proof (cases "h = []")
  case True
  then show ?thesis by (simp add: heap_Pop_def)
next
  case False
  then have n: "length h - 1 < length h" by simp
  have "set (Swap h 0 (length h - 1)) = set h"
    using mset_Swap [of 0 h "length h - 1"] False by (metis length_greater_0_conv n set_mset_mset)
  then have "down lt (Swap h 0 (length h - 1)) 0 (length h - 1)
           = down lt' (Swap h 0 (length h - 1)) 0 (length h - 1)"
    using assms by (intro down_cong) simp_all
  then show ?thesis by (simp add: heap_Pop_def Let_def)
qed

lemma heap_Pop_heap:
  assumes "h \<noteq> []" and "is_heap K h (length h)" and "heap_Pop (kless K) h = Inr (x, h')"
  shows "is_heap K h' (length h')" and "\<forall>y\<in>set h'. K y \<le> K x" and "x \<in> set h"
proof -
  define n where "n = length h - 1"
  define h1 where "h1 = Swap h 0 n"
  define h2 where "h2 = down (kless K) h1 0 n"
  have n: "n < length h" "0 < length h" using assms(1) by (simp_all add: n_def)
  have nth1: "h1 ! k = (if k = n then h ! 0 else if k = 0 then h ! n else h ! k)" for k
    unfolding h1_def using n by (simp add: nth_Swap)
  have len: "length h2 = length h" "length h1 = length h" by (simp_all add: h2_def h1_def)
  then have ne: "h2 \<noteq> []" using assms(1) by auto
  from assms(1,3) have x: "x = last h2" and h': "h' = butlast h2"
    by (simp_all add: heap_Pop_def Let_def h2_def h1_def n_def)
  have "heap_except_down K h1 n 0"
    unfolding heap_except_down_def
  proof (intro conjI allI impI; (elim conjE)?)
    fix k assume k: "0 < k" "k < n" "parent k \<noteq> 0"
    then have "parent k < k" by (simp add: parent_less)
    then have "h1 ! k = h ! k" "h1 ! parent k = h ! parent k" using k by (simp_all add: nth1)
    then show "K (h1 ! k) \<le> K (h1 ! parent k)"
      using is_heapD [OF assms(2) k(1)] k(2) n by simp
  qed simp
  then have hp2: "is_heap K h2 n"
    unfolding h2_def using n len by (intro down_heap) simp_all
  have "last h2 = h2 ! n" using ne len by (simp add: last_conv_nth n_def)
  also have "\<dots> = h1 ! n" unfolding h2_def using n len by (intro down_nth_ge) simp_all
  also have "\<dots> = h ! 0" by (simp add: nth1)
  finally have x0: "x = h ! 0" by (simp add: x)
  then show "x \<in> set h" using n by simp
  have tk: "h' = take n h2" by (simp add: h' butlast_conv_take len n_def)
  then have lh': "length h' = n" using n len by simp
  show "is_heap K h' (length h')"
    unfolding is_heap_def lh'
  proof (intro allI impI)
    fix k assume k: "0 < k \<and> k < n"
    then have "parent k < n" using parent_less [of k] by simp
    then show "K (h' ! k) \<le> K (h' ! parent k)"
      using is_heapD [OF hp2] k by (simp add: tk)
  qed
  have "mset h2 = mset h" unfolding h2_def h1_def using n by (simp add: mset_down mset_Swap)
  then have "set h2 = set h" by (metis set_mset_mset)
  moreover have "set h' \<subseteq> set h2" unfolding tk by (rule set_take_subset)
  ultimately have sub: "set h' \<subseteq> set h" by simp
  show "\<forall>y\<in>set h'. K y \<le> K x"
  proof
    fix y assume "y \<in> set h'"
    then have "y \<in> set h" using sub by blast
    then obtain k where "k < length h" "y = h ! k" by (auto simp: in_set_conv_nth)
    then show "K y \<le> K x" using is_heap_root [OF assms(2)] x0 by simp
  qed
qed

section \<open>Properties of the selector\<close>

lemma flt_fkey:
  assumes "a \<noteq> NaN" and "b \<noteq> NaN"
  shows "flt a b \<longleftrightarrow> fkey a < fkey b"
  using assms by (cases a; cases b) simp_all

lemma fneg_fneg [simp]: "fneg (fneg a) = a"
  by (cases a) simp_all

lemma fneg_NaN [simp]: "fneg a = NaN \<longleftrightarrow> a = NaN"
  by (cases a) simp_all

lemma fkey_fneg_le:
  assumes "a \<noteq> NaN" and "b \<noteq> NaN"
  shows "fkey (fneg a) \<le> fkey (fneg b) \<longleftrightarrow> fkey b \<le> fkey a"
  using assms by (cases a; cases b) auto

lemma fle_fkey: "fle a b \<longleftrightarrow> a \<noteq> NaN \<and> b \<noteq> NaN \<and> fkey a \<le> fkey b"
  by (auto simp: fle_def flt_fkey not_less)

lemma MaxHeap_Less_kless:
  assumes "similarity a \<noteq> NaN" and "similarity b \<noteq> NaN"
  shows "MaxHeap_Less a b = kless stored_key a b"
  using assms by (simp add: MaxHeap_Less_def fgt_def kless_def stored_key_def flt_fkey)

lemma negated_negated [simp]: "negated (negated e) = e"
  by (simp add: negated_def)

lemma similarity_negated [simp]: "similarity (negated e) = fneg (similarity e)"
  by (simp add: negated_def)

lemma heap_Push_MaxHeap:
  assumes "no_NaN h" and "similarity x \<noteq> NaN"
  shows "heap_Push MaxHeap_Less h x = heap_Push (kless stored_key) h x"
  by (rule heap_Push_cong) (use assms in \<open>auto simp: no_NaN_def MaxHeap_Less_kless\<close>)

lemma heap_Pop_MaxHeap:
  assumes "no_NaN h"
  shows "heap_Pop MaxHeap_Less h = heap_Pop (kless stored_key) h"
  by (rule heap_Pop_cong) (use assms in \<open>auto simp: no_NaN_def MaxHeap_Less_kless\<close>)

lemma no_NaN_mset:
  assumes "mset h = mset h'"
  shows "no_NaN h = no_NaN h'"
  using assms by (metis no_NaN_def set_mset_mset)

lemma scored_Cons:
  assumes "i < length names"
  shows "scored qp (profile # table) (drop i names) =
           \<lparr>similarity = calculateSimilarity qp profile, name = names ! i\<rparr>
             # scored qp table (drop (i + 1) names)"
  using assms by (simp add: scored_def flip: Cons_nth_drop_Suc)

lemma top_loop_length:
  assumes "i + length table \<le> length names" and "length hp \<le> nat topN"
  shows "\<exists>hp'. top_loop qp names topN table i hp = Inr hp'
               \<and> length hp' = min (length hp + length table) (nat topN)"
  using assms
proof (induction table arbitrary: i hp)
  case Nil
  then show ?case by simp
next
  case (Cons profile table)
  define e where "e = \<lparr>similarity = fneg (calculateSimilarity qp profile), name = names ! i\<rparr>"
  define hp1 where "hp1 = heap_Push MaxHeap_Less hp e"
  have i: "i < length names" "i + 1 + length table \<le> length names" using Cons.prems(1) by simp_all
  have l1: "length hp1 = length hp + 1" by (simp add: hp1_def)
  show ?case
  proof (cases "topN < int (length hp1)")
    case True
    then have full: "length hp = nat topN" using Cons.prems(2) l1 by linarith
    have "hp1 \<noteq> []" using l1 by auto
    from heap_Pop_Inr [OF this, of MaxHeap_Less] obtain x hp2 where
      pop: "heap_Pop MaxHeap_Less hp1 = Inr (x, hp2)" and l2: "length hp2 = length hp1 - 1"
      by blast
    have "length hp2 \<le> nat topN" using l2 l1 full by simp
    from Cons.IH [OF i(2) this] obtain hp' where
      "top_loop qp names topN table (i + 1) hp2 = Inr hp'"
      "length hp' = min (length hp2 + length table) (nat topN)" by blast
    then show ?thesis
      using True i(1) pop l2 l1 full
      by (simp add: Let_def e_def [symmetric] hp1_def [symmetric])
  next
    case False
    then have "length hp1 \<le> nat topN" by linarith
    from Cons.IH [OF i(2) this] obtain hp' where
      "top_loop qp names topN table (i + 1) hp1 = Inr hp'"
      "length hp' = min (length hp1 + length table) (nat topN)" by blast
    then show ?thesis
      using False i(1) l1
      by (simp add: Let_def e_def [symmetric] hp1_def [symmetric])
  qed
qed

lemma drain_length:
  "\<exists>res. drain hp acc = Inr res \<and> length res = length acc + length hp"
proof (induction "length hp" arbitrary: hp acc)
  case 0
  then show ?case by (subst drain.simps) simp
next
  case (Suc n)
  then have ne: "hp \<noteq> []" by auto
  from heap_Pop_Inr [OF this, of MaxHeap_Less] obtain x hp2 where
    pop: "heap_Pop MaxHeap_Less hp = Inr (x, hp2)" and l2: "length hp2 = length hp - 1"
    by blast
  have "n = length hp2" using Suc(2) l2 by simp
  from Suc(1) [OF this, of "acc @ [x\<lparr>similarity := fneg (similarity x)\<rparr>]"] obtain res where
    "drain hp2 (acc @ [x\<lparr>similarity := fneg (similarity x)\<rparr>]) = Inr res"
    "length res = length (acc @ [x\<lparr>similarity := fneg (similarity x)\<rparr>]) + length hp2" by blast
  then show ?case using ne pop l2 by (subst drain.simps) simp
qed

lemma set_add_mset:
  assumes "mset h1 = add_mset e (mset h)"
  shows "set h1 = insert e (set h)"
  using arg_cong [OF assms, of set_mset] by simp

lemma no_NaN_add_mset:
  assumes "mset h1 = add_mset e (mset h)"
  shows "no_NaN h1 \<longleftrightarrow> similarity e \<noteq> NaN \<and> no_NaN h"
  by (simp add: no_NaN_def set_add_mset [OF assms])

lemma top_loop_topk:
  assumes "i + length table \<le> length names" and "length hp \<le> nat topN"
    and "is_heap stored_key hp (length hp)" and "no_NaN hp"
    and "\<forall>p\<in>set table. calculateSimilarity qp p \<noteq> NaN"
    and "\<forall>x\<in>set hp. \<forall>y\<in>#D. stored_key x \<le> stored_key y"
    and "length hp < nat topN \<longrightarrow> D = {#}"
  shows "\<exists>hp' D'. top_loop qp names topN table i hp = Inr hp'
           \<and> is_heap stored_key hp' (length hp') \<and> no_NaN hp'
           \<and> mset hp + mset (map negated (scored qp table (drop i names))) + D = mset hp' + D'
           \<and> (\<forall>x\<in>set hp'. \<forall>y\<in>#D'. stored_key x \<le> stored_key y)"
  using assms
proof (induction table arbitrary: i hp D)
  case Nil
  then show ?case by (auto simp: scored_def)
next
  case (Cons profile table)
  define e where "e = \<lparr>similarity = fneg (calculateSimilarity qp profile), name = names ! i\<rparr>"
  define hp1 where "hp1 = heap_Push MaxHeap_Less hp e"
  have i: "i < length names" "i + 1 + length table \<le> length names" using Cons.prems(1) by simp_all
  have e_ok: "similarity e \<noteq> NaN" using Cons.prems(5) by (simp add: e_def)
  have rest_ok: "\<forall>p\<in>set table. calculateSimilarity qp p \<noteq> NaN" using Cons.prems(5) by simp
  have hp1: "hp1 = heap_Push (kless stored_key) hp e"
    unfolding hp1_def using Cons.prems(4) e_ok by (rule heap_Push_MaxHeap)
  have l1: "length hp1 = length hp + 1" by (simp add: hp1_def)
  have m1: "mset hp1 = add_mset e (mset hp)" by (simp add: hp1_def mset_heap_Push)
  have h1: "is_heap stored_key hp1 (length hp1)"
    using heap_Push_heap [OF Cons.prems(3), of e] by (simp add: l1 hp1)
  have ok1: "no_NaN hp1"
    using Cons.prems(4) e_ok by (simp add: no_NaN_add_mset [OF m1])
  have sc: "map negated (scored qp (profile # table) (drop i names))
          = e # map negated (scored qp table (drop (i + 1) names))"
    using i(1) by (simp add: scored_Cons e_def negated_def)
  show ?case
  proof (cases "topN < int (length hp1)")
    case True
    then have full: "length hp = nat topN" using Cons.prems(2) l1 by linarith
    have ne: "hp1 \<noteq> []" using l1 by auto
    from heap_Pop_Inr [OF ne, of MaxHeap_Less] obtain x hp2 where
      pop: "heap_Pop MaxHeap_Less hp1 = Inr (x, hp2)" and l2: "length hp2 = length hp1 - 1"
      and m2: "mset hp1 = add_mset x (mset hp2)"
      by blast
    have pop': "heap_Pop (kless stored_key) hp1 = Inr (x, hp2)"
      using pop heap_Pop_MaxHeap [OF ok1] by simp
    note P = heap_Pop_heap [OF ne h1 pop']
    have ok2: "no_NaN hp2"
      using ok1 by (simp add: no_NaN_add_mset [OF m2])
    have len2: "length hp2 \<le> nat topN" using l2 l1 full by simp
    have D2: "\<forall>a\<in>set hp2. \<forall>y\<in>#add_mset x D. stored_key a \<le> stored_key y"
    proof (intro ballI)
      fix a y assume a: "a \<in> set hp2" and y: "y \<in># add_mset x D"
      show "stored_key a \<le> stored_key y"
      proof (cases "y = x")
        case True
        then show ?thesis using P(2) a by simp
      next
        case False
        then have yD: "y \<in># D" using y by simp
        show ?thesis
        proof (cases "x = e")
          case True
          then have "mset hp2 = mset hp" using m1 m2 by simp
          then have "set hp2 = set hp" by (rule mset_eq_setD)
          then have "a \<in> set hp" using a by simp
          then show ?thesis using Cons.prems(6) yD by simp
        next
          case False
          moreover have "x \<in> set hp1" using set_add_mset [OF m2] by simp
          ultimately have "x \<in> set hp" using set_add_mset [OF m1] by simp
          then have "stored_key x \<le> stored_key y" using Cons.prems(6) yD by simp
          moreover have "stored_key a \<le> stored_key x" using P(2) a by simp
          ultimately show ?thesis by simp
        qed
      qed
    qed
    have "length hp2 < nat topN \<longrightarrow> add_mset x D = {#}" using l2 l1 full by simp
    from Cons.IH [OF i(2) len2 P(1) ok2 rest_ok D2 this] obtain hp' D' where
      r: "top_loop qp names topN table (i + 1) hp2 = Inr hp'"
        "is_heap stored_key hp' (length hp')" "no_NaN hp'"
        "mset hp2 + mset (map negated (scored qp table (drop (i + 1) names))) + add_mset x D
           = mset hp' + D'"
        "\<forall>x\<in>set hp'. \<forall>y\<in>#D'. stored_key x \<le> stored_key y"
      by blast
    have "top_loop qp names topN (profile # table) i hp = Inr hp'"
      using True i(1) pop r(1) l1 by (simp add: Let_def e_def [symmetric] hp1_def [symmetric])
    moreover have "mset hp + mset (map negated (scored qp (profile # table) (drop i names))) + D
        = mset hp' + D'"
    proof -
      define M where "M = mset (map negated (scored qp table (drop (i + 1) names)))"
      have "mset hp + mset (map negated (scored qp (profile # table) (drop i names))) + D
          = mset hp1 + M + D"
        unfolding sc M_def m1 by simp
      also have "\<dots> = mset hp2 + M + add_mset x D" unfolding m2 by simp
      also have "\<dots> = mset hp' + D'" unfolding M_def by (rule r(4))
      finally show ?thesis .
    qed
    ultimately show ?thesis using r(2,3,5) by blast
  next
    case False
    then have len1: "length hp1 \<le> nat topN" by linarith
    then have "length hp < nat topN" using l1 by simp
    then have D: "D = {#}" using Cons.prems(7) by simp
    have D1: "\<forall>a\<in>set hp1. \<forall>y\<in>#D. stored_key a \<le> stored_key y" by (simp add: D)
    have "length hp1 < nat topN \<longrightarrow> D = {#}" by (simp add: D)
    from Cons.IH [OF i(2) len1 h1 ok1 rest_ok D1 this] obtain hp' D' where
      r: "top_loop qp names topN table (i + 1) hp1 = Inr hp'"
        "is_heap stored_key hp' (length hp')" "no_NaN hp'"
        "mset hp1 + mset (map negated (scored qp table (drop (i + 1) names))) + D
           = mset hp' + D'"
        "\<forall>x\<in>set hp'. \<forall>y\<in>#D'. stored_key x \<le> stored_key y"
      by blast
    have "top_loop qp names topN (profile # table) i hp = Inr hp'"
      using False i(1) r(1) l1 by (simp add: Let_def e_def [symmetric] hp1_def [symmetric])
    moreover have "mset hp + mset (map negated (scored qp (profile # table) (drop i names))) + D
        = mset hp' + D'"
    proof -
      define M where "M = mset (map negated (scored qp table (drop (i + 1) names)))"
      have "mset hp + mset (map negated (scored qp (profile # table) (drop i names))) + D
          = mset hp1 + M + D"
        unfolding sc M_def m1 by simp
      also have "\<dots> = mset hp' + D'" unfolding M_def by (rule r(4))
      finally show ?thesis .
    qed
    ultimately show ?thesis using r(2,3,5) by blast
  qed
qed

lemma drain_sorted:
  assumes "is_heap stored_key hp (length hp)" and "no_NaN hp"
  shows "\<exists>ds. drain hp acc = Inr (acc @ map negated ds) \<and> mset ds = mset hp
            \<and> sorted_wrt (\<lambda>a b. stored_key b \<le> stored_key a) ds"
  using assms
proof (induction "length hp" arbitrary: hp acc)
  case 0
  then show ?case by (subst drain.simps) simp
next
  case (Suc n)
  then have ne: "hp \<noteq> []" by auto
  from heap_Pop_Inr [OF ne, of MaxHeap_Less] obtain x hp2 where
    pop: "heap_Pop MaxHeap_Less hp = Inr (x, hp2)" and l2: "length hp2 = length hp - 1"
    and m2: "mset hp = add_mset x (mset hp2)"
    by blast
  have pop': "heap_Pop (kless stored_key) hp = Inr (x, hp2)"
    using pop heap_Pop_MaxHeap [OF Suc.prems(2)] by simp
  note P = heap_Pop_heap [OF ne Suc.prems(1) pop']
  have ok2: "no_NaN hp2"
    using Suc.prems(2) by (simp add: no_NaN_add_mset [OF m2])
  have "n = length hp2" using Suc(2) l2 by simp
  from Suc(1) [OF this P(1) ok2, of "acc @ [negated x]"] obtain ds where
    ds: "drain hp2 (acc @ [negated x]) = Inr ((acc @ [negated x]) @ map negated ds)"
      "mset ds = mset hp2" "sorted_wrt (\<lambda>a b. stored_key b \<le> stored_key a) ds"
    by blast
  have "drain hp acc = Inr (acc @ map negated (x # ds))"
    using ne pop ds(1) by (subst drain.simps) (simp add: negated_def)
  moreover have "mset (x # ds) = mset hp" using ds(2) m2 by simp
  moreover have "sorted_wrt (\<lambda>a b. stored_key b \<le> stored_key a) (x # ds)"
  proof -
    have "set ds = set hp2" using ds(2) by (rule mset_eq_setD)
    then show ?thesis using ds(3) P(2) by simp
  qed
  ultimately show ?case by blast
qed

lemma heap_Init_Nil [simp]: "heap_Init lt [] = []"
  by (simp add: heap_Init_def)

lemma image_negated_negated: "image_mset negated (image_mset negated M) = M"
  by (simp add: image_mset.compositionality comp_def)

lemma scored_no_NaN:
  assumes "\<forall>p\<in>set table. calculateSimilarity qp p \<noteq> NaN"
  shows "no_NaN (map negated (scored qp table names))"
  using assms by (auto simp: no_NaN_def scored_def dest: set_zip_leftD)

text \<open>
  Claim C1, as amended.  For a query that has a profile, a table with a name for each of its
  profiles and \<open>topN \<ge> 1\<close>, \<open>findTop100Similar\<close> returns exactly \<open>min topN (length table)\<close>
  results.  When no score is NaN the results are in non-decreasing order of score (\<open>main\<close>
  reads them from the last to the first), they are entries of the table with their scores,
  and no entry that is left out has a score above that of an entry returned.
\<close>

theorem findTop100Similar_topk:
  assumes "buildProfile newProteinSequence = Inr newProfile"
    and "length table \<le> length names" and "1 \<le> topN"
  shows "\<exists>res. findTop100Similar newProteinSequence table names topN = Inr res
            \<and> length res = min (nat topN) (length table)
            \<and> ((\<forall>p\<in>set table. calculateSimilarity newProfile p \<noteq> NaN) \<longrightarrow>
                 sorted_wrt (\<lambda>a b. fle (similarity a) (similarity b)) res
                 \<and> (\<exists>rest. mset (scored newProfile table names) = mset res + rest
                      \<and> (\<forall>x\<in>set res. \<forall>y\<in>#rest. fle (similarity y) (similarity x))))"
proof -
  have l0: "0 + length table \<le> length names" "length ([] :: MaxHeap) \<le> nat topN"
    using assms(2) by simp_all
  from top_loop_length [OF l0, of newProfile] obtain hp where
    hp: "top_loop newProfile names topN table 0 [] = Inr hp"
      "length hp = min (length ([] :: MaxHeap) + length table) (nat topN)"
    by (elim exE conjE)
  from drain_length [of hp "[]"] obtain res where
    res: "drain hp [] = Inr res" "length res = length ([] :: MaxHeap) + length hp"
    by (elim exE conjE)
  have run: "findTop100Similar newProteinSequence table names topN = Inr res"
    by (simp add: findTop100Similar_def assms(1) hp(1) res(1))
  have len: "length res = min (nat topN) (length table)"
    using res(2) hp(2) by (simp add: min.commute)
  have "sorted_wrt (\<lambda>a b. fle (similarity a) (similarity b)) res
          \<and> (\<exists>rest. mset (scored newProfile table names) = mset res + rest
                \<and> (\<forall>x\<in>set res. \<forall>y\<in>#rest. fle (similarity y) (similarity x)))"
    if nn: "\<forall>p\<in>set table. calculateSimilarity newProfile p \<noteq> NaN"
  proof -
    have "\<exists>hp' D'. top_loop newProfile names topN table 0 [] = Inr hp'
           \<and> is_heap stored_key hp' (length hp') \<and> no_NaN hp'
           \<and> mset ([] :: MaxHeap) + mset (map negated (scored newProfile table (drop 0 names)))
                 + ({#} :: ProteinSimilarity multiset)
                = mset hp' + D'
           \<and> (\<forall>x\<in>set hp'. \<forall>y\<in>#D'. stored_key x \<le> stored_key y)"
      by (rule top_loop_topk [OF l0 _ _ nn]) (simp_all add: is_heap_def no_NaN_def)
    then obtain hp' D' where
      T': "top_loop newProfile names topN table 0 [] = Inr hp'"
        "is_heap stored_key hp' (length hp')" "no_NaN hp'"
        "mset ([] :: MaxHeap) + mset (map negated (scored newProfile table (drop 0 names)))
                 + ({#} :: ProteinSimilarity multiset) = mset hp' + D'"
        "\<forall>x\<in>set hp'. \<forall>y\<in>#D'. stored_key x \<le> stored_key y"
      by (elim exE conjE)
    have "hp' = hp" using T'(1) hp(1) by simp
    then have T: "is_heap stored_key hp (length hp)" "no_NaN hp"
        "mset (map negated (scored newProfile table names)) = mset hp + D'"
        "\<forall>x\<in>set hp. \<forall>y\<in>#D'. stored_key x \<le> stored_key y"
      using T'(2,3,4,5) by simp_all
    from drain_sorted [OF T(1,2), of "[]"] obtain ds where
      ds': "drain hp [] = Inr ([] @ map negated ds)" "mset ds = mset hp"
        "sorted_wrt (\<lambda>a b. stored_key b \<le> stored_key a) ds"
      by (elim exE conjE)
    have "res = map negated ds" using ds'(1) res(1) by simp
    note ds = this ds'(2,3)
    have sds: "set ds = set hp" using ds(2) by (rule mset_eq_setD)
    have ok_ds: "\<forall>e\<in>set ds. similarity e \<noteq> NaN" using T(2) sds by (simp add: no_NaN_def)
    have all_ok: "no_NaN (map negated (scored newProfile table names))"
      using nn by (rule scored_no_NaN)
    have ok_D: "\<forall>e\<in>#D'. similarity e \<noteq> NaN"
    proof
      fix e assume "e \<in># D'"
      then have "e \<in># mset (map negated (scored newProfile table names))"
        unfolding T(3) by simp
      then show "similarity e \<noteq> NaN" using all_ok by (auto simp: no_NaN_def)
    qed
    have "sorted_wrt (\<lambda>a b. fle (similarity (negated a)) (similarity (negated b))) ds"
      using ds(3)
    proof (rule sorted_wrt_mono_rel [rotated])
      fix a b assume "a \<in> set ds" "b \<in> set ds" "stored_key b \<le> stored_key a"
      then show "fle (similarity (negated a)) (similarity (negated b))"
        using ok_ds by (simp add: fle_fkey fkey_fneg_le stored_key_def)
    qed
    then have sorted: "sorted_wrt (\<lambda>a b. fle (similarity a) (similarity b)) res"
      by (simp add: ds(1) sorted_wrt_map)
    define rest where "rest = image_mset negated D'"
    have "mset (scored newProfile table names)
            = image_mset negated (image_mset negated (mset (scored newProfile table names)))"
      by (simp only: image_negated_negated)
    also have "\<dots> = image_mset negated (mset (map negated (scored newProfile table names)))"
      by (simp only: mset_map)
    also have "\<dots> = image_mset negated (mset ds + D')"
      by (simp only: T(3) ds(2))
    also have "\<dots> = mset res + rest"
      by (simp only: image_mset_union ds(1) mset_map rest_def)
    finally have m: "mset (scored newProfile table names) = mset res + rest" .
    have top: "\<forall>x\<in>set res. \<forall>y\<in>#rest. fle (similarity y) (similarity x)"
    proof (intro ballI)
      fix x y assume "x \<in> set res" "y \<in># rest"
      then obtain x0 y0 where x0: "x0 \<in> set hp" "x = negated x0"
        and y0: "y0 \<in># D'" "y = negated y0"
        by (auto simp: ds(1) sds rest_def)
      have "stored_key x0 \<le> stored_key y0" using T(4) x0(1) y0(1) by simp
      moreover have "similarity x0 \<noteq> NaN" "similarity y0 \<noteq> NaN"
        using T(2) x0(1) ok_D y0(1) by (simp_all add: no_NaN_def)
      ultimately show "fle (similarity y) (similarity x)"
        by (simp add: x0(2) y0(2) fle_fkey fkey_fneg_le stored_key_def)
    qed
    from m top have "\<exists>rest. mset (scored newProfile table names) = mset res + rest
                \<and> (\<forall>x\<in>set res. \<forall>y\<in>#rest. fle (similarity y) (similarity x))"
      by (intro exI [of _ rest] conjI)
    with sorted show ?thesis by (rule conjI)
  qed
  then have "(\<forall>p\<in>set table. calculateSimilarity newProfile p \<noteq> NaN) \<longrightarrow>
                 sorted_wrt (\<lambda>a b. fle (similarity a) (similarity b)) res
                 \<and> (\<exists>rest. mset (scored newProfile table names) = mset res + rest
                      \<and> (\<forall>x\<in>set res. \<forall>y\<in>#rest. fle (similarity y) (similarity x)))"
    by (rule impI)
  with run len show ?thesis by (intro exI [of _ res] conjI)
qed

lemma calculateSimilarity_not_NaN:
  assumes "profile_inv X" and "profile_inv Y" and "0 < Sum X"
  shows "calculateSimilarity X Y \<noteq> NaN"
proof -
  define a where "a = minSum X Y 676"
  define b where "b = unat (Sum X) + unat (Sum Y) - a"
  note c = calculateSimilarity_inv [OF assms(1,2), folded a_def, folded b_def]
  have "0 < unat (Sum X)" using assms(3) by (simp add: word_less_nat_alt)
  then have "0 < b" using c(3) by (simp add: b_def)
  then show ?thesis using c(1) by simp
qed

lemma profile_inv_AA: "profile_inv \<lparr>Profile = (replicate 676 0)[0 := 1], Sum = 1\<rparr>"
proof -
  have "sum_list (map unat ((replicate 676 (0::32 word))[0 := 1])) = 1"
    by (simp add: map_update sum_list_update sum_list_replicate)
  then show ?thesis by (simp add: profile_inv_def)
qed

lemma profile_inv_AB: "profile_inv \<lparr>Profile = (replicate 676 0)[1 := 1], Sum = 1\<rparr>"
proof -
  have "sum_list (map unat ((replicate 676 (0::32 word))[1 := 1])) = 1"
    by (simp add: map_update sum_list_update sum_list_replicate)
  then show ?thesis by (simp add: profile_inv_def)
qed

lemma similarity_AA_AA:
  "calculateSimilarity \<lparr>Profile = (replicate 676 0)[0 := 1], Sum = 1\<rparr>
     \<lparr>Profile = (replicate 676 0)[0 := 1], Sum = 1\<rparr> = Fin 1"
proof -
  define A where "A = \<lparr>Profile = (replicate 676 (0::32 word))[0 := 1], Sum = 1\<rparr>"
  have i: "profile_inv A" unfolding A_def by (rule profile_inv_AA)
  have len: "length (Profile A) = 676" by (simp add: A_def)
  have s: "unat (Sum A) = 1" by (simp add: A_def)
  have a: "minSum A A 676 = 1"
    using minSum_same [OF len] i s by (simp add: profile_inv_def)
  have "calculateSimilarity A A = fdiv (Fin (of_nat 1)) (Fin (of_nat (1 + 1 - 1)))"
    using calculateSimilarity_inv(1) [OF i i] unfolding a s .
  then show ?thesis unfolding A_def by simp
qed

lemma similarity_AA_AB:
  "calculateSimilarity \<lparr>Profile = (replicate 676 0)[0 := 1], Sum = 1\<rparr>
     \<lparr>Profile = (replicate 676 0)[1 := 1], Sum = 1\<rparr> = Fin 0"
proof -
  define A where "A = \<lparr>Profile = (replicate 676 (0::32 word))[0 := 1], Sum = 1\<rparr>"
  define B where "B = \<lparr>Profile = (replicate 676 (0::32 word))[1 := 1], Sum = 1\<rparr>"
  have i: "profile_inv A" unfolding A_def by (rule profile_inv_AA)
  have j: "profile_inv B" unfolding B_def by (rule profile_inv_AB)
  have s: "unat (Sum A) = 1" "unat (Sum B) = 1" by (simp_all add: A_def B_def)
  have "min (unat (Profile A ! k)) (unat (Profile B ! k)) = 0" if "k < 676" for k
    using that by (simp add: A_def B_def nth_list_update)
  then have a: "minSum A B 676 = 0" by (simp add: minSum_def)
  have "calculateSimilarity A B = fdiv (Fin (of_nat 0)) (Fin (of_nat (1 + 1 - 0)))"
    using calculateSimilarity_inv(1) [OF i j] unfolding a s .
  then show ?thesis unfolding A_def B_def by simp
qed

lemma profile_inv_zero: "profile_inv \<lparr>Profile = replicate 676 0, Sum = 0\<rparr>"
  by (simp add: profile_inv_def sum_list_replicate)

lemma similarity_zero_AA:
  "calculateSimilarity \<lparr>Profile = replicate 676 0, Sum = 0\<rparr>
     \<lparr>Profile = (replicate 676 0)[0 := 1], Sum = 1\<rparr> = Fin 0"
proof -
  define Z where "Z = \<lparr>Profile = replicate 676 (0::32 word), Sum = 0\<rparr>"
  define A where "A = \<lparr>Profile = (replicate 676 (0::32 word))[0 := 1], Sum = 1\<rparr>"
  have i: "profile_inv Z" unfolding Z_def by (rule profile_inv_zero)
  have j: "profile_inv A" unfolding A_def by (rule profile_inv_AA)
  have s: "unat (Sum Z) = 0" "unat (Sum A) = 1" by (simp_all add: Z_def A_def)
  have "min (unat (Profile Z ! k)) (unat (Profile A ! k)) = 0" if "k < 676" for k
    using that by (simp add: Z_def)
  then have a: "minSum Z A 676 = 0" by (simp add: minSum_def)
  have "calculateSimilarity Z A = fdiv (Fin (of_nat 0)) (Fin (of_nat (0 + 1 - 0)))"
    using calculateSimilarity_inv(1) [OF i j] unfolding a s .
  then show ?thesis unfolding Z_def A_def by simp
qed

text \<open>
  Claim C1 as stated fails in the order of the results.  For the query \<open>AA\<close> and the table
  of the profiles of \<open>AA\<close> and \<open>AB\<close>, with \<open>topN = 2\<close>, the scores are 1 and 0, and the
  function returns the entry with score 0 first: the list is not in non-increasing order.
  And where a score is NaN the results are in no order at all: for the query \<open>A\<close>, whose
  profile is zero, and the table of the zero profile and the profile of \<open>AA\<close>, the scores
  are NaN and 0, returned in this order.
\<close>

theorem findTop100Similar_ascending:
  "findTop100Similar ''AA''
     [\<lparr>Profile = (replicate 676 0)[0 := 1], Sum = 1\<rparr>,
      \<lparr>Profile = (replicate 676 0)[1 := 1], Sum = 1\<rparr>]
     [''>a'', ''>b''] 2
     = Inr [\<lparr>similarity = Fin 0, name = ''>b''\<rparr>, \<lparr>similarity = Fin 1, name = ''>a''\<rparr>]
   \<and> \<not> sorted_wrt (\<lambda>a b. fle (similarity b) (similarity a))
         [\<lparr>similarity = Fin 0, name = ''>b''\<rparr>, \<lparr>similarity = Fin 1, name = ''>a''\<rparr>]
   \<and> findTop100Similar ''A''
     [\<lparr>Profile = replicate 676 0, Sum = 0\<rparr>,
      \<lparr>Profile = (replicate 676 0)[0 := 1], Sum = 1\<rparr>]
     [''>a'', ''>b''] 2
     = Inr [\<lparr>similarity = NaN, name = ''>a''\<rparr>, \<lparr>similarity = Fin 0, name = ''>b''\<rparr>]
   \<and> \<not> sorted_wrt (\<lambda>a b. fle (similarity b) (similarity a))
         [\<lparr>similarity = NaN, name = ''>a''\<rparr>, \<lparr>similarity = Fin 0, name = ''>b''\<rparr>]
   \<and> \<not> sorted_wrt (\<lambda>a b. fle (similarity a) (similarity b))
         [\<lparr>similarity = NaN, name = ''>a''\<rparr>, \<lparr>similarity = Fin 0, name = ''>b''\<rparr>]"
proof (intro conjI)
  define A where "A = \<lparr>Profile = (replicate 676 (0::32 word))[0 := 1], Sum = 1\<rparr>"
  define B where "B = \<lparr>Profile = (replicate 676 (0::32 word))[1 := 1], Sum = 1\<rparr>"
  define Z where "Z = \<lparr>Profile = replicate 676 (0::32 word), Sum = 0\<rparr>"
  have q: "buildProfile ''AA'' = Inr A" unfolding A_def by (rule buildProfile_AA)
  have sA: "calculateSimilarity A A = Fin 1" unfolding A_def by (rule similarity_AA_AA)
  have sB: "calculateSimilarity A B = Fin 0" unfolding A_def B_def by (rule similarity_AA_AB)
  have tl: "top_loop A [''>a'', ''>b''] 2 [A, B] 0 []
      = Inr [\<lparr>similarity = Fin 0, name = ''>b''\<rparr>, \<lparr>similarity = Fin (- 1), name = ''>a''\<rparr>]"
    by (simp add: sA sB heap_Push_def up_unfold parent_def Swap_def MaxHeap_Less_def fgt_def)
  have dr: "drain [\<lparr>similarity = Fin 0, name = ''>b''\<rparr>, \<lparr>similarity = Fin (- 1), name = ''>a''\<rparr>] []
      = Inr [\<lparr>similarity = Fin 0, name = ''>b''\<rparr>, \<lparr>similarity = Fin 1, name = ''>a''\<rparr>]"
    by (simp add: drain.simps heap_Pop_def down_unfold Swap_def)
  have "findTop100Similar ''AA'' [A, B] [''>a'', ''>b''] 2
     = Inr [\<lparr>similarity = Fin 0, name = ''>b''\<rparr>, \<lparr>similarity = Fin 1, name = ''>a''\<rparr>]"
    by (simp only: findTop100Similar_def q heap_Init_Nil tl dr sum.case)
  then show "findTop100Similar ''AA''
     [\<lparr>Profile = (replicate 676 0)[0 := 1], Sum = 1\<rparr>,
      \<lparr>Profile = (replicate 676 0)[1 := 1], Sum = 1\<rparr>]
     [''>a'', ''>b''] 2
     = Inr [\<lparr>similarity = Fin 0, name = ''>b''\<rparr>, \<lparr>similarity = Fin 1, name = ''>a''\<rparr>]"
    unfolding A_def B_def .
  show "\<not> sorted_wrt (\<lambda>a b. fle (similarity b) (similarity a))
         [\<lparr>similarity = Fin 0, name = ''>b''\<rparr>, \<lparr>similarity = Fin 1, name = ''>a''\<rparr>]"
    by (simp add: fle_def)
  have qz: "buildProfile ''A'' = Inr Z" unfolding Z_def by (simp add: buildProfile_short)
  have sZ: "calculateSimilarity Z Z = NaN"
    by (rule calculateSimilarity_zero) (simp_all add: Z_def)
  have sZA: "calculateSimilarity Z A = Fin 0" unfolding Z_def A_def by (rule similarity_zero_AA)
  have tlz: "top_loop Z [''>a'', ''>b''] 2 [Z, A] 0 []
      = Inr [\<lparr>similarity = NaN, name = ''>a''\<rparr>, \<lparr>similarity = Fin 0, name = ''>b''\<rparr>]"
    by (simp add: sZ sZA heap_Push_def up_unfold parent_def Swap_def MaxHeap_Less_def fgt_def)
  have drz: "drain [\<lparr>similarity = NaN, name = ''>a''\<rparr>, \<lparr>similarity = Fin 0, name = ''>b''\<rparr>] []
      = Inr [\<lparr>similarity = NaN, name = ''>a''\<rparr>, \<lparr>similarity = Fin 0, name = ''>b''\<rparr>]"
    by (simp add: drain.simps heap_Pop_def down_unfold Swap_def)
  have "findTop100Similar ''A'' [Z, A] [''>a'', ''>b''] 2
     = Inr [\<lparr>similarity = NaN, name = ''>a''\<rparr>, \<lparr>similarity = Fin 0, name = ''>b''\<rparr>]"
    by (simp only: findTop100Similar_def qz heap_Init_Nil tlz drz sum.case)
  then show "findTop100Similar ''A''
     [\<lparr>Profile = replicate 676 0, Sum = 0\<rparr>,
      \<lparr>Profile = (replicate 676 0)[0 := 1], Sum = 1\<rparr>]
     [''>a'', ''>b''] 2
     = Inr [\<lparr>similarity = NaN, name = ''>a''\<rparr>, \<lparr>similarity = Fin 0, name = ''>b''\<rparr>]"
    unfolding Z_def A_def .
  show "\<not> sorted_wrt (\<lambda>a b. fle (similarity b) (similarity a))
         [\<lparr>similarity = NaN, name = ''>a''\<rparr>, \<lparr>similarity = Fin 0, name = ''>b''\<rparr>]"
    by (simp add: fle_def)
  show "\<not> sorted_wrt (\<lambda>a b. fle (similarity a) (similarity b))
         [\<lparr>similarity = NaN, name = ''>a''\<rparr>, \<lparr>similarity = Fin 0, name = ''>b''\<rparr>]"
    by (simp add: fle_def)
qed

theorem findTop100Similar_topk_witness:
  "buildProfile ''AA'' = Inr \<lparr>Profile = (replicate 676 0)[0 := 1], Sum = 1\<rparr>
   \<and> length [\<lparr>Profile = (replicate 676 0)[0 := 1], Sum = 1\<rparr>,
              \<lparr>Profile = (replicate 676 0)[1 := 1], Sum = 1\<rparr>,
              \<lparr>Profile = (replicate 676 0)[0 := 1], Sum = 1\<rparr>]
        \<le> length [''>a'', ''>b'', ''>c'']
   \<and> (1::int) \<le> 2
   \<and> list_all (\<lambda>p. calculateSimilarity \<lparr>Profile = (replicate 676 0)[0 := 1], Sum = 1\<rparr> p \<noteq> NaN)
         [\<lparr>Profile = (replicate 676 0)[0 := 1], Sum = 1\<rparr>,
          \<lparr>Profile = (replicate 676 0)[1 := 1], Sum = 1\<rparr>,
          \<lparr>Profile = (replicate 676 0)[0 := 1], Sum = 1\<rparr>]
   \<and> (\<exists>res. findTop100Similar ''AA''
                [\<lparr>Profile = (replicate 676 0)[0 := 1], Sum = 1\<rparr>,
                 \<lparr>Profile = (replicate 676 0)[1 := 1], Sum = 1\<rparr>,
                 \<lparr>Profile = (replicate 676 0)[0 := 1], Sum = 1\<rparr>]
                [''>a'', ''>b'', ''>c''] 2 = Inr res
          \<and> length res = min (nat 2)
                (length [\<lparr>Profile = (replicate 676 0)[0 := 1], Sum = 1\<rparr>,
                         \<lparr>Profile = (replicate 676 0)[1 := 1], Sum = 1\<rparr>,
                         \<lparr>Profile = (replicate 676 0)[0 := 1], Sum = 1\<rparr>])
          \<and> sorted_wrt (\<lambda>a b. fle (similarity a) (similarity b)) res
          \<and> mset res \<subseteq># mset (scored \<lparr>Profile = (replicate 676 0)[0 := 1], Sum = 1\<rparr>
                [\<lparr>Profile = (replicate 676 0)[0 := 1], Sum = 1\<rparr>,
                 \<lparr>Profile = (replicate 676 0)[1 := 1], Sum = 1\<rparr>,
                 \<lparr>Profile = (replicate 676 0)[0 := 1], Sum = 1\<rparr>]
                [''>a'', ''>b'', ''>c'']))"
proof -
  define A where "A = \<lparr>Profile = (replicate 676 (0::32 word))[0 := 1], Sum = 1\<rparr>"
  define B where "B = \<lparr>Profile = (replicate 676 (0::32 word))[1 := 1], Sum = 1\<rparr>"
  have h1: "buildProfile ''AA'' = Inr A" unfolding A_def by (rule buildProfile_AA)
  have h2: "length [A, B, A] \<le> length [''>a'', ''>b'', ''>c'']" by simp
  have h3: "(1::int) \<le> 2" by simp
  have iA: "profile_inv A" unfolding A_def by (rule profile_inv_AA)
  have iB: "profile_inv B" unfolding B_def by (rule profile_inv_AB)
  have pA: "0 < Sum A" by (simp add: A_def)
  have nn: "\<forall>p\<in>set [A, B, A]. calculateSimilarity A p \<noteq> NaN"
  proof
    fix p assume "p \<in> set [A, B, A]"
    then have "profile_inv p" using iA iB by auto
    with iA show "calculateSimilarity A p \<noteq> NaN" using pA by (rule calculateSimilarity_not_NaN)
  qed
  then have nn': "list_all (\<lambda>p. calculateSimilarity A p \<noteq> NaN) [A, B, A]"
    by (simp only: list_all_iff)
  from findTop100Similar_topk [OF h1 h2 h3] obtain res where
    r: "findTop100Similar ''AA'' [A, B, A] [''>a'', ''>b'', ''>c''] 2 = Inr res"
      "length res = min (nat 2) (length [A, B, A])"
      "(\<forall>p\<in>set [A, B, A]. calculateSimilarity A p \<noteq> NaN) \<longrightarrow>
         sorted_wrt (\<lambda>a b. fle (similarity a) (similarity b)) res
         \<and> (\<exists>rest. mset (scored A [A, B, A] [''>a'', ''>b'', ''>c'']) = mset res + rest
              \<and> (\<forall>x\<in>set res. \<forall>y\<in>#rest. fle (similarity y) (similarity x)))"
    by (elim exE conjE)
  from r(3) nn have s: "sorted_wrt (\<lambda>a b. fle (similarity a) (similarity b)) res
         \<and> (\<exists>rest. mset (scored A [A, B, A] [''>a'', ''>b'', ''>c'']) = mset res + rest
              \<and> (\<forall>x\<in>set res. \<forall>y\<in>#rest. fle (similarity y) (similarity x)))"
    by (rule mp)
  then obtain rest where "mset (scored A [A, B, A] [''>a'', ''>b'', ''>c'']) = mset res + rest"
    by (elim exE conjE)
  then have sub: "mset res \<subseteq># mset (scored A [A, B, A] [''>a'', ''>b'', ''>c''])"
    by (simp only: mset_subset_eq_add_left)
  from r(1,2) s sub have "\<exists>res. findTop100Similar ''AA'' [A, B, A] [''>a'', ''>b'', ''>c''] 2 = Inr res
          \<and> length res = min (nat 2) (length [A, B, A])
          \<and> sorted_wrt (\<lambda>a b. fle (similarity a) (similarity b)) res
          \<and> mset res \<subseteq># mset (scored A [A, B, A] [''>a'', ''>b'', ''>c''])"
    by (intro exI [of _ res] conjI) (elim conjE; assumption)+
  with h1 h2 h3 nn' show ?thesis unfolding A_def B_def by (intro conjI)
qed

end
